theory Spec2Isabelle
  imports Main
begin

section \<open>The keyed serialization queue of src/services/queue.js\<close>

text \<open>
  A promise created by \<open>new Promise\<close> at queue.js:27 is identified by a number; its
  \<open>resolve\<close> and \<open>reject\<close> functions are the two ways of settling that promise. An array
  object is identified by its address in a store, because \<open>processQueue\<close> keeps the
  array it fetched at line 43 in a local variable while \<open>enqueue\<close> reaches it through the
  \<open>queues\<close> map.
\<close>

type_synonym handle = nat
type_synonym addr = nat

text \<open>
  An operation is opaque to the queue. Calling it runs its synchronous part, which may
  change the world outside the queue, and then either throws (\<open>Some e\<close>) or returns a
  value or promise that the worker awaits (\<open>None\<close>).
\<close>

type_synonym ('w, 'e) operation = "'w \<Rightarrow> 'w \<times> 'e option"

record ('w, 'e) entry =
  operation :: "('w, 'e) operation"
  handle :: handle

text \<open>
  A suspended activation of \<open>processQueue\<close>, waiting at the \<open>await\<close> of line 49: its
  parameter \<open>tenantId\<close>, its local \<open>queue\<close> and the promise of the entry it shifted.
\<close>

record 'k frame =
  tenantId :: 'k
  queue :: addr
  current :: handle

text \<open>Instrumentation: what an observer of the queue sees, in the order it happens.\<close>

datatype ('k, 'e, 'v) obs =
    Submitted 'k handle
  | WorkerStart 'k
  | Invoked 'k handle "'e option"
  | Resolved 'k handle 'v
  | Rejected 'k handle 'e
  | WorkerExit 'k

record ('k, 'w, 'e, 'v) qstate =
  queues :: "'k \<rightharpoonup> addr"
  processing :: "'k set"
  heap :: "addr \<Rightarrow> ('w, 'e) entry list"
  next_addr :: addr
  next_handle :: handle
  workers :: "'k frame list"
  world :: 'w
  trace :: "('k, 'e, 'v) obs list"

definition init :: "'w \<Rightarrow> ('k, 'w, 'e, 'v) qstate" where
  "init w = \<lparr> queues = Map.empty, processing = {}, heap = (\<lambda>_. []), next_addr = 0,
      next_handle = 0, workers = [], world = w, trace = [] \<rparr>"

text \<open>Lines 56-60: the worker leaves the loop.\<close>

definition finish :: "'k \<Rightarrow> addr \<Rightarrow> ('k, 'w, 'e, 'v) qstate \<Rightarrow> ('k, 'w, 'e, 'v) qstate" where
  "finish k a s =
     (let s1 = s\<lparr> processing := processing s - {k}, trace := trace s @ [WorkerExit k] \<rparr>
      in if length (heap s1 a) = 0 then s1\<lparr> queues := (queues s1)(k := None) \<rparr> else s1)"

text \<open>Lines 46-49, up to the call of the operation: shift the first entry and call it.\<close>

definition invoke ::
  "'k \<Rightarrow> addr \<Rightarrow> ('w, 'e) entry \<Rightarrow> ('w, 'e) entry list \<Rightarrow> ('k, 'w, 'e, 'v) qstate
     \<Rightarrow> 'e option \<times> ('k, 'w, 'e, 'v) qstate" where
  "invoke k a e rest s =
     (let (w', r) = operation e (world s)
      in (r, s\<lparr> heap := (heap s)(a := rest), world := w',
                trace := trace s @ [Invoked k (handle e) r] \<rparr>))"

text \<open>
  Lines 45-60, from the loop test until the activation suspends at the \<open>await\<close> or
  returns. A synchronous throw is caught at line 51 and the loop goes on at once.
\<close>

function processLoop ::
  "'k \<Rightarrow> addr \<Rightarrow> ('k, 'w, 'e, 'v) qstate \<Rightarrow> ('k, 'w, 'e, 'v) qstate" where
  "processLoop k a s =
     (case heap s a of
        [] \<Rightarrow> finish k a s
      | e # rest \<Rightarrow>
          (case invoke k a e rest s of
             (Some err, s') \<Rightarrow>
               processLoop k a (s'\<lparr> trace := trace s' @ [Rejected k (handle e) err] \<rparr>)
           | (None, s') \<Rightarrow>
               s'\<lparr> workers := workers s' @ [\<lparr> tenantId = k, queue = a, current = handle e \<rparr>] \<rparr>))"
  by pat_completeness auto
termination
  by (relation "measure (\<lambda>(k, a, s). length (heap s a))")
     (auto simp: invoke_def split: prod.splits)

text \<open>
  Lines 41-43. If the map had no array for the key, reading \<open>queue.length\<close> would throw
  inside the async function and the activation would end there, the flag still set.
\<close>

definition processQueue :: "'k \<Rightarrow> ('k, 'w, 'e, 'v) qstate \<Rightarrow> ('k, 'w, 'e, 'v) qstate" where
  "processQueue k s =
     (let s1 = s\<lparr> processing := insert k (processing s), trace := trace s @ [WorkerStart k] \<rparr>
      in case queues s1 k of
           None \<Rightarrow> s1
         | Some a \<Rightarrow> processLoop k a s1)"

text \<open>
  Lines 20-35. The result is the promise handed back to the caller, or the error with which
  the call itself would fail: the only statement of the body that can throw is the
  \<open>push\<close> on the result of \<open>queues.get\<close>.
\<close>

datatype submit_error = TypeError

definition enqueue ::
  "'k \<Rightarrow> ('w, 'e) operation \<Rightarrow> ('k, 'w, 'e, 'v) qstate
     \<Rightarrow> (submit_error + handle) \<times> ('k, 'w, 'e, 'v) qstate" where
  "enqueue k opn s =
     (let s1 = (if queues s k = None
                then s\<lparr> queues := (queues s)(k \<mapsto> next_addr s),
                        heap := (heap s)(next_addr s := []),
                        next_addr := Suc (next_addr s) \<rparr>
                else s)
      in case queues s1 k of
           None \<Rightarrow> (Inl TypeError, s1)
         | Some a \<Rightarrow>
             (let h = next_handle s1;
                  s2 = s1\<lparr> heap := (heap s1)(a := heap s1 a @ [\<lparr> operation = opn, handle = h \<rparr>]),
                          next_handle := Suc h,
                          trace := trace s1 @ [Submitted k h] \<rparr>
              in (Inr h, if k \<in> processing s2 then s2 else processQueue k s2)))"

text \<open>
  The promise awaited by a suspended worker settles and the worker runs on: lines 50 or 52,
  then the loop again. A settlement that no worker awaits changes nothing.
\<close>

definition resume ::
  "handle \<Rightarrow> 'e + 'v \<Rightarrow> ('k, 'w, 'e, 'v) qstate \<Rightarrow> ('k, 'w, 'e, 'v) qstate" where
  "resume h out s =
     (case find (\<lambda>f. current f = h) (workers s) of
        None \<Rightarrow> s
      | Some f \<Rightarrow>
          processLoop (tenantId f) (queue f)
            (s\<lparr> workers := remove1 f (workers s),
                trace := trace s @ [case out of
                                      Inl e \<Rightarrow> Rejected (tenantId f) h e
                                    | Inr v \<Rightarrow> Resolved (tenantId f) h v] \<rparr>))"

text \<open>
  The event loop runs one task to completion at a time. A task is either a caller's
  \<open>enqueue\<close> or the continuation of a worker whose awaited promise settled.
\<close>

datatype ('k, 'w, 'e, 'v) task =
    Enqueue 'k "('w, 'e) operation"
  | Settle handle "'e + 'v"

fun step :: "('k, 'w, 'e, 'v) task \<Rightarrow> ('k, 'w, 'e, 'v) qstate \<Rightarrow> ('k, 'w, 'e, 'v) qstate" where
  "step (Enqueue k opn) s = snd (enqueue k opn s)"
| "step (Settle h out) s = resume h out s"

definition run :: "('k, 'w, 'e, 'v) task list \<Rightarrow> ('k, 'w, 'e, 'v) qstate \<Rightarrow> ('k, 'w, 'e, 'v) qstate" where
  "run ts s = fold step ts s"

subsection \<open>Reading the instrumentation\<close>

fun submitted_ev :: "'k \<Rightarrow> ('k, 'e, 'v) obs \<Rightarrow> handle list" where
  "submitted_ev k (Submitted k' h) = (if k' = k then [h] else [])"
| "submitted_ev k _ = []"

fun settled_ev :: "'k \<Rightarrow> ('k, 'e, 'v) obs \<Rightarrow> handle list" where
  "settled_ev k (Resolved k' h v) = (if k' = k then [h] else [])"
| "settled_ev k (Rejected k' h e) = (if k' = k then [h] else [])"
| "settled_ev k _ = []"

fun invoked_ev :: "'k \<Rightarrow> ('k, 'e, 'v) obs \<Rightarrow> handle list" where
  "invoked_ev k (Invoked k' h r) = (if k' = k then [h] else [])"
| "invoked_ev k _ = []"

text \<open>
  The promises created for key \<open>k\<close>, those whose operation was called, and those
  settled, oldest first.
\<close>

definition submitted_of :: "'k \<Rightarrow> ('k, 'e, 'v) obs list \<Rightarrow> handle list" where
  "submitted_of k tr = concat (map (submitted_ev k) tr)"

definition invoked_of :: "'k \<Rightarrow> ('k, 'e, 'v) obs list \<Rightarrow> handle list" where
  "invoked_of k tr = concat (map (invoked_ev k) tr)"

definition settled_of :: "'k \<Rightarrow> ('k, 'e, 'v) obs list \<Rightarrow> handle list" where
  "settled_of k tr = concat (map (settled_ev k) tr)"

text \<open>The entries of a key that wait in its registered array, and the one being executed.\<close>

definition backlog_of :: "'k \<Rightarrow> ('k, 'w, 'e, 'v) qstate \<Rightarrow> handle list" where
  "backlog_of k s = (case queues s k of None \<Rightarrow> [] | Some a \<Rightarrow> map handle (heap s a))"

definition inflight_of :: "'k \<Rightarrow> ('k, 'w, 'e, 'v) qstate \<Rightarrow> handle list" where
  "inflight_of k s = map current (filter (\<lambda>f. tenantId f = k) (workers s))"

text \<open>
  Whether a worker of key \<open>k\<close> is between its start (line 42) and its exit (line 57)
  at the end of a trace; \<open>None\<close> when a worker started while another was active, or
  exited without having started.
\<close>

fun wstep :: "'k \<Rightarrow> ('k, 'e, 'v) obs \<Rightarrow> bool option \<Rightarrow> bool option" where
  "wstep k (WorkerStart k') (Some b) = (if k' = k then (if b then None else Some True) else Some b)"
| "wstep k (WorkerExit k') (Some b) = (if k' = k then (if b then Some False else None) else Some b)"
| "wstep k _ x = x"

definition wstate :: "'k \<Rightarrow> ('k, 'e, 'v) obs list \<Rightarrow> bool option" where
  "wstate k tr = fold (wstep k) tr (Some False)"

text \<open>
  The operation of key \<open>k\<close> that is running at the end of a trace, if any; \<open>None\<close> when
  an operation of \<open>k\<close> was called while another one of \<open>k\<close> had not finished, or a
  promise was settled whose operation was not the running one. An operation that throws
  when called is finished by the \<open>Rejected\<close> that follows.
\<close>

fun ostep :: "'k \<Rightarrow> ('k, 'e, 'v) obs \<Rightarrow> handle option option \<Rightarrow> handle option option" where
  "ostep k (Invoked k' h r) (Some x) = (if k' = k then (if x = None then Some (Some h) else None) else Some x)"
| "ostep k (Resolved k' h v) (Some x) = (if k' = k then (if x = Some h then Some None else None) else Some x)"
| "ostep k (Rejected k' h e) (Some x) = (if k' = k then (if x = Some h then Some None else None) else Some x)"
| "ostep k _ x = x"

definition ostate :: "'k \<Rightarrow> ('k, 'e, 'v) obs list \<Rightarrow> handle option option" where
  "ostate k tr = fold (ostep k) tr (Some None)"

text \<open>
  Every call of an operation of key \<open>k\<close> comes after the settlement of each promise
  created earlier for \<open>k\<close>.
\<close>

definition ordered :: "'k \<Rightarrow> ('k, 'e, 'v) obs list \<Rightarrow> bool" where
  "ordered k tr \<longleftrightarrow>
     (\<forall>n < length tr. \<forall>h' r. tr ! n = Invoked k h' r \<longrightarrow>
        (\<forall>h \<in> set (submitted_of k tr). h < h' \<longrightarrow> h \<in> set (settled_of k (take n tr))))"

text \<open>How often the promise \<open>h\<close> was settled: the calls of its \<open>resolve\<close> and \<open>reject\<close>.\<close>

fun settles :: "handle \<Rightarrow> ('k, 'e, 'v) obs \<Rightarrow> bool" where
  "settles h (Resolved k h' v) = (h' = h)"
| "settles h (Rejected k h' e) = (h' = h)"
| "settles h _ = False"

definition settle_count :: "handle \<Rightarrow> ('k, 'e, 'v) obs list \<Rightarrow> nat" where
  "settle_count h tr = length (filter (settles h) tr)"

text \<open>
  Every settlement in a trace delivers what the operation produced: a value with which
  the awaited promise was fulfilled, an error with which it was rejected, or the error
  the operation threw when it was called.
\<close>

definition justified :: "('k, 'w, 'e, 'v) task list \<Rightarrow> ('k, 'e, 'v) obs list \<Rightarrow> bool" where
  "justified ts tr \<longleftrightarrow>
     (\<forall>k h v. Resolved k h v \<in> set tr \<longrightarrow> Settle h (Inr v) \<in> set ts) \<and>
     (\<forall>k h e. Rejected k h e \<in> set tr \<longrightarrow>
        Settle h (Inl e) \<in> set ts \<or> Invoked k h (Some e) \<in> set tr)"

subsection \<open>Invariants\<close>

text \<open>
  \<open>act\<close> names the activation of \<open>processQueue\<close> that is running, if the state is seen
  from inside one: its key and its array. Between tasks it is \<open>None\<close>.
\<close>

definition owned ::
  "('k \<times> addr) option \<Rightarrow> ('k, 'w, 'e, 'v) qstate \<Rightarrow> 'k \<Rightarrow> addr \<Rightarrow> bool" where
  "owned act s k a \<longleftrightarrow>
     (\<exists>f \<in> set (workers s). tenantId f = k \<and> queue f = a) \<or> act = Some (k, a)"

definition struct_inv :: "('k \<times> addr) option \<Rightarrow> ('k, 'w, 'e, 'v) qstate \<Rightarrow> bool" where
  "struct_inv act s \<longleftrightarrow>
     (\<forall>k a. queues s k = Some a \<longleftrightarrow> owned act s k a) \<and>
     (\<forall>k. k \<in> processing s \<longleftrightarrow> (\<exists>a. owned act s k a)) \<and>
     (\<forall>k a. owned act s k a \<longrightarrow> a < next_addr s) \<and>
     (\<forall>k k' a. owned act s k a \<and> owned act s k' a \<longrightarrow> k = k') \<and>
     distinct (map tenantId (workers s)) \<and>
     (\<forall>k a. act = Some (k, a) \<longrightarrow> k \<notin> tenantId ` set (workers s))"

definition acct_inv :: "('k, 'w, 'e, 'v) qstate \<Rightarrow> bool" where
  "acct_inv s \<longleftrightarrow>
     (\<forall>k. submitted_of k (trace s) = settled_of k (trace s) @ inflight_of k s @ backlog_of k s) \<and>
     (\<forall>k. invoked_of k (trace s) = settled_of k (trace s) @ inflight_of k s) \<and>
     (\<forall>k. \<forall>h \<in> set (submitted_of k (trace s)). h < next_handle s) \<and>
     (\<forall>k. sorted_wrt (<) (submitted_of k (trace s))) \<and>
     (\<forall>k k'. k \<noteq> k' \<longrightarrow> set (submitted_of k (trace s)) \<inter> set (submitted_of k' (trace s)) = {})"

definition trace_inv :: "('k, 'w, 'e, 'v) qstate \<Rightarrow> bool" where
  "trace_inv s \<longleftrightarrow>
     (\<forall>k. ordered k (trace s)) \<and>
     (\<forall>k. wstate k (trace s) = Some (k \<in> processing s)) \<and>
     (\<forall>k. ostate k (trace s) = Some (case inflight_of k s of [] \<Rightarrow> None | h # _ \<Rightarrow> Some h))"

definition ginv :: "('k \<times> addr) option \<Rightarrow> ('k, 'w, 'e, 'v) qstate \<Rightarrow> bool" where
  "ginv act s \<longleftrightarrow> struct_inv act s \<and> acct_inv s \<and> trace_inv s"

text \<open>
  What one activation of the loop of \<open>processQueue\<close> adds to the trace when it finds the
  entries \<open>hs\<close> in its array: each entry whose call throws is invoked and rejected, in the
  order of the array, and the activation ends either at the first call that returns, which
  it awaits, or at the empty array, where the worker leaves.
\<close>

fun loop_shape :: "'k \<Rightarrow> handle list \<Rightarrow> ('k, 'e, 'v) obs list \<Rightarrow> bool" where
  "loop_shape k [] evs = (evs = [WorkerExit k])"
| "loop_shape k (h # hs) (Invoked k' h' None # evs) = (k' = k \<and> h' = h \<and> evs = [])"
| "loop_shape k (h # hs) (Invoked k' h' (Some err) # Rejected k'' h'' err' # evs) =
     (k' = k \<and> h' = h \<and> k'' = k \<and> h'' = h \<and> err' = err \<and> loop_shape k hs evs)"
| "loop_shape k (h # hs) evs = False"

text \<open>
  The operations that are running or wait behind a running one: for every suspended
  worker, the entry it awaits and the entries still in its array.
\<close>

definition pending :: "('k, 'w, 'e, 'v) qstate \<Rightarrow> nat" where
  "pending s = sum_list (map (\<lambda>f. Suc (length (heap s (queue f)))) (workers s))"

text \<open>What a worker of key \<open>k\<close> does leaves every other key as it was.\<close>

definition same_for :: "'k \<Rightarrow> ('k, 'w, 'e, 'v) qstate \<Rightarrow> ('k, 'w, 'e, 'v) qstate \<Rightarrow> bool" where
  "same_for k' s s' \<longleftrightarrow>
     queues s' k' = queues s k' \<and>
     (k' \<in> processing s') = (k' \<in> processing s) \<and>
     filter (\<lambda>f. tenantId f = k') (workers s') = filter (\<lambda>f. tenantId f = k') (workers s) \<and>
     (case queues s k' of None \<Rightarrow> True | Some a' \<Rightarrow> heap s' a' = heap s a') \<and>
     submitted_of k' (trace s') = submitted_of k' (trace s) \<and>
     invoked_of k' (trace s') = invoked_of k' (trace s) \<and>
     settled_of k' (trace s') = settled_of k' (trace s)"

text \<open>
  The state in which \<open>processQueue\<close> reaches its loop when \<open>enqueue\<close> found the key
  neither registered nor marked: lines 23, 28 and 42.
\<close>

definition started :: "'k \<Rightarrow> ('w, 'e) operation \<Rightarrow> ('k, 'w, 'e, 'v) qstate \<Rightarrow> ('k, 'w, 'e, 'v) qstate" where
  "started k opn s =
     s\<lparr> queues := (queues s)(k \<mapsto> next_addr s),
        next_addr := Suc (next_addr s),
        heap := (heap s)(next_addr s := [\<lparr> operation = opn, handle = next_handle s \<rparr>]),
        next_handle := Suc (next_handle s),
        processing := insert k (processing s),
        trace := trace s @ [Submitted k (next_handle s), WorkerStart k] \<rparr>"

text \<open>An observation with its promise renumbered: the \<open>n\<close>-th promise later.\<close>

fun renumber :: "nat \<Rightarrow> ('k, 'e, 'v) obs \<Rightarrow> ('k, 'e, 'v) obs" where
  "renumber n (Submitted k h) = Submitted k (n + h)"
| "renumber n (WorkerStart k) = WorkerStart k"
| "renumber n (Invoked k h r) = Invoked k (n + h) r"
| "renumber n (Resolved k h v) = Resolved k (n + h) v"
| "renumber n (Rejected k h e) = Rejected k (n + h) e"
| "renumber n (WorkerExit k) = WorkerExit k"

section \<open>The monthly reset: resetCounters (src/unnamed/part_002), getAllTenantIds (src/unnamed/part_001)\<close>

text \<open>
  The variables that the closures of one run of \<open>resetCounters\<close> share, and the number of
  calls of \<open>counterService.resetAllCounters\<close> so far. Other callers' operations work on
  the rest of the world.
\<close>

record job_vars =
  resetExecuted :: bool
  resetAllCounters_calls :: nat

text \<open>
  \<open>getAllTenantIds\<close>: the query fails, or its rows give the tenant identifiers, each once,
  in the order in which a \<open>Set\<close> first receives them.
\<close>

definition getAllTenantIds :: "'x + 'k list \<Rightarrow> 'x + 'k list" where
  "getAllTenantIds data =
     (case data of
        Inl err \<Rightarrow> Inl err
      | Inr rows \<Rightarrow> Inr (fold (\<lambda>t acc. if t \<in> set acc then acc else acc @ [t]) rows []))"

text \<open>
  The operation queued for every tenant, up to its first \<open>await\<close>: the first one called
  sets the flag and calls \<open>resetAllCounters\<close>; the others find the flag set. An async
  function does not throw when called. What it does once \<open>resetAllCounters\<close> has answered
  (the assignment to \<open>resetCount\<close>, the value returned) is the outcome with which its
  promise settles.
\<close>

definition reset_operation :: "('x job_vars_scheme, 'e) operation" where
  "reset_operation w =
     (if \<not> resetExecuted w
      then (w\<lparr> resetExecuted := True, resetAllCounters_calls := Suc (resetAllCounters_calls w) \<rparr>, None)
      else (w, None))"

text \<open>
  \<open>resetCounters\<close> from the answer of \<open>getAllTenantIds\<close> to the \<open>await\<close> of
  \<open>Promise.all\<close>: a failed query is logged and nothing is queued; otherwise the flag starts
  as \<open>false\<close> and \<open>enqueue\<close> is called for every tenant identifier in turn.
\<close>

definition resetCounters ::
  "'x + 'k list \<Rightarrow> ('k, 'z job_vars_scheme, 'e, 'v) qstate \<Rightarrow> ('k, 'z job_vars_scheme, 'e, 'v) qstate" where
  "resetCounters data s =
     (case getAllTenantIds data of
        Inl err \<Rightarrow> s
      | Inr tenantIds \<Rightarrow>
          fold (\<lambda>tenantId st. snd (enqueue tenantId reset_operation st)) tenantIds
            (s\<lparr> world := (world s)\<lparr> resetExecuted := False \<rparr> \<rparr>))"

text \<open>An operation of another caller: it has no access to the variables of the run.\<close>

definition foreign :: "('x job_vars_scheme, 'e) operation \<Rightarrow> bool" where
  "foreign opn \<longleftrightarrow>
     (\<forall>w. resetExecuted (fst (opn w)) = resetExecuted w \<and>
          resetAllCounters_calls (fst (opn w)) = resetAllCounters_calls w)"

fun foreign_task :: "('k, 'x job_vars_scheme, 'e, 'v) task \<Rightarrow> bool" where
  "foreign_task (Enqueue k opn) = foreign opn"
| "foreign_task (Settle h out) = True"

text \<open>
  The promises numbered from \<open>h0\<close> up to \<open>h1\<close> are those of the run. Every entry in an
  array holds the operation of the run if its promise is one of them and a foreign
  operation otherwise, and no promise in an array or in the trace has a number yet to be
  given.
\<close>

definition of_run :: "nat \<Rightarrow> nat \<Rightarrow> handle \<Rightarrow> bool" where
  "of_run h0 h1 h \<longleftrightarrow> h0 \<le> h \<and> h < h1"

definition base_inv :: "nat \<Rightarrow> nat \<Rightarrow> ('k, 'x job_vars_scheme, 'e, 'v) qstate \<Rightarrow> bool" where
  "base_inv h0 h1 s \<longleftrightarrow>
     h1 \<le> next_handle s \<and>
     (\<forall>a. \<forall>e \<in> set (heap s a).
        handle e < next_handle s \<and>
        (if of_run h0 h1 (handle e) then operation e = reset_operation else foreign (operation e))) \<and>
     (\<forall>k h r. Invoked k h r \<in> set (trace s) \<longrightarrow> h < next_handle s)"

text \<open>
  Once the flag is set, \<open>resetAllCounters\<close> has been called once more than before the
  run; until then, not at all, and no operation of the run has been called.
\<close>

definition count_inv :: "nat \<Rightarrow> nat \<Rightarrow> nat \<Rightarrow> ('k, 'x job_vars_scheme, 'e, 'v) qstate \<Rightarrow> bool" where
  "count_inv h0 h1 c0 s \<longleftrightarrow>
     (if resetExecuted (world s)
      then resetAllCounters_calls (world s) = Suc c0 \<and>
           (\<exists>k h r. Invoked k h r \<in> set (trace s) \<and> of_run h0 h1 h)
      else resetAllCounters_calls (world s) = c0 \<and>
           (\<forall>k h r. Invoked k h r \<in> set (trace s) \<longrightarrow> \<not> of_run h0 h1 h))"

text \<open>An operation of another caller, in a world that holds nothing but the variables of a run.\<close>

definition other_work :: "(job_vars, string) operation" where
  "other_work w = (w, None)"

section \<open>The order number of src/utils/index.js\<close>

text \<open>
  The values \<open>formatOrderNumber\<close> can be called with. A number is \<open>NaN\<close>, an infinity, a
  finite number that is not an integer, or an integer, given by its exact value.
\<close>

datatype js_number = NaN | PosInfinity | NegInfinity | Fractional | Integral int

datatype js_value =
  JSUndefined | JSNull | JSBoolean bool | JSNumber js_number | JSString string | JSObject
















section \<open>Sample inputs\<close>

text \<open>
  Two operations over a world that counts calls: one that returns a promise, one that
  throws when called. The key of a submission is any JavaScript value; the three kinds
  below are enough to tell a tenant identifier from \<open>null\<close> and \<open>undefined\<close>.
\<close>

definition returning :: "(nat, string) operation" where
  "returning w = (Suc w, None)"

definition throwing :: "(nat, string) operation" where
  "throwing w = (w, Some ''boom'')"

datatype js_key = JNull | JUndefined | JString string

section \<open>Proofs\<close>

subsection \<open>The invariants hold after every task\<close>


lemma submitted_of_simps [simp]:
  "submitted_of k [] = []"
  "submitted_of k (ev # tr) = submitted_ev k ev @ submitted_of k tr"
  "submitted_of k (tr @ tr') = submitted_of k tr @ submitted_of k tr'"
  by (simp_all add: submitted_of_def)

lemma invoked_of_simps [simp]:
  "invoked_of k [] = []"
  "invoked_of k (ev # tr) = invoked_ev k ev @ invoked_of k tr"
  "invoked_of k (tr @ tr') = invoked_of k tr @ invoked_of k tr'"
  by (simp_all add: invoked_of_def)

lemma settled_of_simps [simp]:
  "settled_of k [] = []"
  "settled_of k (ev # tr) = settled_ev k ev @ settled_of k tr"
  "settled_of k (tr @ tr') = settled_of k tr @ settled_of k tr'"
  by (simp_all add: settled_of_def)

lemma wstate_append [simp]: "wstate k (tr @ tr') = fold (wstep k) tr' (wstate k tr)"
  by (simp add: wstate_def)

lemma ostate_append [simp]: "ostate k (tr @ tr') = fold (ostep k) tr' (ostate k tr)"
  by (simp add: ostate_def)

lemma struct_invI:
  assumes "\<And>k a. (queues s k = Some a) = owned act s k a"
    and "\<And>k. (k \<in> processing s) = (\<exists>a. owned act s k a)"
    and "\<And>k a. owned act s k a \<Longrightarrow> a < next_addr s"
    and "\<And>k k' a. owned act s k a \<Longrightarrow> owned act s k' a \<Longrightarrow> k = k'"
    and "distinct (map tenantId (workers s))"
    and "\<And>k a. act = Some (k, a) \<Longrightarrow> k \<notin> tenantId ` set (workers s)"
  shows "struct_inv act s"
  unfolding struct_inv_def using assms by blast

lemma struct_invD:
  assumes "struct_inv act s"
  shows "(queues s k = Some a) = owned act s k a"
    and "(k \<in> processing s) = (\<exists>a. owned act s k a)"
    and "owned act s k a \<Longrightarrow> a < next_addr s"
    and "owned act s k a \<Longrightarrow> owned act s k' a \<Longrightarrow> k = k'"
    and "distinct (map tenantId (workers s))"
    and "act = Some (k, a) \<Longrightarrow> k \<notin> tenantId ` set (workers s)"
proof -
  note u = assms[unfolded struct_inv_def]
  note 1 = u[THEN conjunct1]
  note 2 = u[THEN conjunct2, THEN conjunct1]
  note 3 = u[THEN conjunct2, THEN conjunct2, THEN conjunct1]
  note 4 = u[THEN conjunct2, THEN conjunct2, THEN conjunct2, THEN conjunct1]
  note 5 = u[THEN conjunct2, THEN conjunct2, THEN conjunct2, THEN conjunct2, THEN conjunct1]
  note 6 = u[THEN conjunct2, THEN conjunct2, THEN conjunct2, THEN conjunct2, THEN conjunct2]
  show "(queues s k = Some a) = owned act s k a" using 1 by blast
  show "(k \<in> processing s) = (\<exists>a. owned act s k a)" using 2 by blast
  show "owned act s k a \<Longrightarrow> a < next_addr s" using 3 by blast
  show "owned act s k a \<Longrightarrow> owned act s k' a \<Longrightarrow> k = k'" using 4 by blast
  show "distinct (map tenantId (workers s))" by (rule 5)
  show "act = Some (k, a) \<Longrightarrow> k \<notin> tenantId ` set (workers s)" using 6 by blast
qed

lemma owned_None: "owned None s k a = (\<exists>f \<in> set (workers s). tenantId f = k \<and> queue f = a)"
  by (simp add: owned_def)

lemma owned_Some: "owned (Some (k', a')) s k a =
   ((\<exists>f \<in> set (workers s). tenantId f = k \<and> queue f = a) \<or> (k = k' \<and> a = a'))"
  by (auto simp add: owned_def)

lemma owned_cong: "workers s' = workers s \<Longrightarrow> owned act s' = owned act s"
  by (simp add: owned_def fun_eq_iff)

lemma struct_same:
  assumes inv: "struct_inv act s"
    and eqs: "queues s' = queues s" "processing s' = processing s" "workers s' = workers s"
      "next_addr s' = next_addr s"
  shows "struct_inv act s'"
  using inv unfolding struct_inv_def owned_cong[OF eqs(3)] eqs .

lemma struct_exit:
  assumes inv: "struct_inv (Some (k, a)) s"
    and eqs: "queues s' = (queues s)(k := None)" "processing s' = processing s - {k}"
      "workers s' = workers s" "next_addr s' = next_addr s"
  shows "struct_inv None s'"
proof -
  note D = struct_invD[OF inv]
  have nk: "k \<notin> tenantId ` set (workers s)" using D(6) by simp
  have own: "\<And>k' a'. owned None s' k' a' = (owned (Some (k, a)) s k' a' \<and> k' \<noteq> k)"
    using nk by (auto simp: owned_def eqs)
  show ?thesis
  proof (rule struct_invI)
    fix k' a' show "(queues s' k' = Some a') = owned None s' k' a'"
      using D(1)[of k' a'] by (simp add: own eqs)
  next
    fix k' show "(k' \<in> processing s') = (\<exists>a. owned None s' k' a)"
      using D(2)[of k'] by (auto simp add: own eqs)
  next
    fix k' a' assume "owned None s' k' a'" then show "a' < next_addr s'"
      using D(3)[of k' a'] by (simp add: own eqs)
  next
    fix k' k'' a' assume "owned None s' k' a'" "owned None s' k'' a'" then show "k' = k''"
      using D(4)[of k' a' k''] by (simp add: own)
  next
    show "distinct (map tenantId (workers s'))" using D(5) by (simp add: eqs)
  qed simp
qed

lemma struct_susp:
  assumes inv: "struct_inv (Some (k, a)) s"
    and eqs: "queues s' = queues s" "processing s' = processing s"
      "workers s' = workers s @ [\<lparr> tenantId = k, queue = a, current = h \<rparr>]"
      "next_addr s' = next_addr s"
  shows "struct_inv None s'"
proof -
  note D = struct_invD[OF inv]
  have nk: "k \<notin> tenantId ` set (workers s)" using D(6) by simp
  have own: "\<And>k' a'. owned None s' k' a' = owned (Some (k, a)) s k' a'"
    by (auto simp: owned_def eqs)
  show ?thesis
  proof (rule struct_invI)
    fix k' a' show "(queues s' k' = Some a') = owned None s' k' a'"
      using D(1)[of k' a'] by (simp add: own eqs)
  next
    fix k' show "(k' \<in> processing s') = (\<exists>a. owned None s' k' a)"
      using D(2)[of k'] by (simp add: own eqs)
  next
    fix k' a' assume "owned None s' k' a'" then show "a' < next_addr s'"
      using D(3)[of k' a'] by (simp add: own eqs)
  next
    fix k' k'' a' assume "owned None s' k' a'" "owned None s' k'' a'" then show "k' = k''"
      using D(4)[of k' a' k''] by (simp add: own)
  next
    show "distinct (map tenantId (workers s'))" using D(5) nk by (simp add: eqs)
  qed simp
qed

lemma struct_start:
  assumes inv: "struct_inv None s" and idle: "queues s k = None"
    and eqs: "queues s' = (queues s)(k \<mapsto> next_addr s)" "processing s' = insert k (processing s)"
      "workers s' = workers s" "next_addr s' = Suc (next_addr s)"
  shows "struct_inv (Some (k, next_addr s)) s'"
proof -
  note D = struct_invD[OF inv]
  have nk: "\<And>a. \<not> owned None s k a" using D(1)[of k] idle by simp
  have own: "\<And>k' a'. owned (Some (k, next_addr s)) s' k' a' =
      (owned None s k' a' \<or> (k' = k \<and> a' = next_addr s))"
    by (auto simp: owned_def eqs)
  show ?thesis
  proof (rule struct_invI)
    fix k' a' show "(queues s' k' = Some a') = owned (Some (k, next_addr s)) s' k' a'"
      using D(1)[of k' a'] nk by (auto simp add: own eqs)
  next
    fix k' show "(k' \<in> processing s') = (\<exists>a. owned (Some (k, next_addr s)) s' k' a)"
      using D(2)[of k'] by (auto simp add: own eqs)
  next
    fix k' a' assume "owned (Some (k, next_addr s)) s' k' a'" then show "a' < next_addr s'"
      using D(3)[of k' a'] by (auto simp add: own eqs)
  next
    fix k' k'' a' assume "owned (Some (k, next_addr s)) s' k' a'" "owned (Some (k, next_addr s)) s' k'' a'"
    then show "k' = k''"
      using D(4)[of k' a' k''] D(3)[of k' a'] D(3)[of k'' a'] by (auto simp add: own)
  next
    show "distinct (map tenantId (workers s'))" using D(5) by (simp add: eqs)
  next
    fix k' a' assume "Some (k, next_addr s) = Some (k', a')"
    then show "k' \<notin> tenantId ` set (workers s')"
      using nk by (auto simp: owned_def eqs)
  qed
qed

lemma struct_resume:
  assumes inv: "struct_inv None s" and f: "f \<in> set (workers s)"
    and eqs: "queues s' = queues s" "processing s' = processing s"
      "workers s' = remove1 f (workers s)" "next_addr s' = next_addr s"
  shows "struct_inv (Some (tenantId f, queue f)) s'"
proof -
  note D = struct_invD[OF inv]
  have set': "set (workers s') = set (workers s) - {f}"
    using D(5) by (simp add: eqs distinct_map)
  have uniq: "\<And>g. g \<in> set (workers s) \<Longrightarrow> tenantId g = tenantId f \<Longrightarrow> g = f"
    using D(5) f by (auto simp: distinct_map inj_on_def)
  have own: "\<And>k' a'. owned (Some (tenantId f, queue f)) s' k' a' = owned None s k' a'"
    using f uniq D(1) unfolding owned_def set' by (metis option.inject Diff_iff singletonD option.simps(3) prod.inject)
  show ?thesis
  proof (rule struct_invI)
    fix k' a' show "(queues s' k' = Some a') = owned (Some (tenantId f, queue f)) s' k' a'"
      using D(1)[of k' a'] by (simp add: own eqs)
  next
    fix k' show "(k' \<in> processing s') = (\<exists>a. owned (Some (tenantId f, queue f)) s' k' a)"
      using D(2)[of k'] by (simp add: own eqs)
  next
    fix k' a' assume "owned (Some (tenantId f, queue f)) s' k' a'" then show "a' < next_addr s'"
      using D(3)[of k' a'] by (simp add: own eqs)
  next
    fix k' k'' a' assume "owned (Some (tenantId f, queue f)) s' k' a'" "owned (Some (tenantId f, queue f)) s' k'' a'"
    then show "k' = k''"
      using D(4)[of k' a' k''] by (simp add: own)
  next
    show "distinct (map tenantId (workers s'))" using D(5) by (simp add: eqs distinct_map inj_on_def)
  next
    fix k' a' assume "Some (tenantId f, queue f) = Some (k', a')"
    then show "k' \<notin> tenantId ` set (workers s')"
      using uniq unfolding set' by auto
  qed
qed

lemma acct_invI:
  assumes "\<And>k. submitted_of k (trace s) = settled_of k (trace s) @ inflight_of k s @ backlog_of k s"
    and "\<And>k. invoked_of k (trace s) = settled_of k (trace s) @ inflight_of k s"
    and "\<And>k h. h \<in> set (submitted_of k (trace s)) \<Longrightarrow> h < next_handle s"
    and "\<And>k. sorted_wrt (<) (submitted_of k (trace s))"
    and "\<And>k k'. k \<noteq> k' \<Longrightarrow> set (submitted_of k (trace s)) \<inter> set (submitted_of k' (trace s)) = {}"
  shows "acct_inv s"
  unfolding acct_inv_def using assms by blast

lemma acct_invD:
  assumes "acct_inv s"
  shows "submitted_of k (trace s) = settled_of k (trace s) @ inflight_of k s @ backlog_of k s"
    and "invoked_of k (trace s) = settled_of k (trace s) @ inflight_of k s"
    and "h \<in> set (submitted_of k (trace s)) \<Longrightarrow> h < next_handle s"
    and "sorted_wrt (<) (submitted_of k (trace s))"
    and "k \<noteq> k' \<Longrightarrow> set (submitted_of k (trace s)) \<inter> set (submitted_of k' (trace s)) = {}"
proof -
  note u = assms[unfolded acct_inv_def]
  note 1 = u[THEN conjunct1]
  note 2 = u[THEN conjunct2, THEN conjunct1]
  note 3 = u[THEN conjunct2, THEN conjunct2, THEN conjunct1]
  note 4 = u[THEN conjunct2, THEN conjunct2, THEN conjunct2, THEN conjunct1]
  note 5 = u[THEN conjunct2, THEN conjunct2, THEN conjunct2, THEN conjunct2]
  show "submitted_of k (trace s) = settled_of k (trace s) @ inflight_of k s @ backlog_of k s"
    using 1 by blast
  show "invoked_of k (trace s) = settled_of k (trace s) @ inflight_of k s" using 2 by blast
  show "h \<in> set (submitted_of k (trace s)) \<Longrightarrow> h < next_handle s" using 3 by blast
  show "sorted_wrt (<) (submitted_of k (trace s))" using 4 by blast
  show "k \<noteq> k' \<Longrightarrow> set (submitted_of k (trace s)) \<inter> set (submitted_of k' (trace s)) = {}"
    using 5 by blast
qed

lemma filter_key_unique:
  "distinct (map key ws) \<Longrightarrow> f \<in> set ws \<Longrightarrow> filter (\<lambda>g. key g = key f) ws = [f]"
proof (induction ws)
  case Nil then show ?case by simp
next
  case (Cons w ws)
  show ?case
  proof (cases "w = f")
    case True
    have "filter (\<lambda>g. key g = key f) ws = []"
      using Cons.prems True by (auto simp: filter_empty_conv image_iff)
    then show ?thesis using True by simp
  next
    case False
    then have "f \<in> set ws" using Cons.prems by simp
    moreover have "key w \<noteq> key f" using Cons.prems \<open>f \<in> set ws\<close> by auto
    ultimately show ?thesis using Cons by simp
  qed
qed

lemma filter_key_absent:
  "k \<notin> key ` set ws \<Longrightarrow> filter (\<lambda>g. key g = k) ws = []"
  by (auto simp: filter_empty_conv)

lemma filter_key_remove1:
  "distinct (map key ws) \<Longrightarrow> f \<in> set ws \<Longrightarrow>
   filter (\<lambda>g. key g = k) (remove1 f ws) = (if k = key f then [] else filter (\<lambda>g. key g = k) ws)"
proof (induction ws)
  case Nil then show ?case by simp
next
  case (Cons w ws)
  show ?case
  proof (cases "w = f")
    case True
    then show ?thesis using Cons.prems by (auto simp: filter_empty_conv image_iff)
  next
    case False
    then have "f \<in> set ws" using Cons.prems by simp
    moreover have "key w \<noteq> key f" using Cons.prems \<open>f \<in> set ws\<close> by auto
    ultimately show ?thesis using Cons False by auto
  qed
qed

text \<open>What the structural invariant says about the running activation and the others.\<close>

lemma act_facts:
  assumes inv: "struct_inv (Some (k, a)) s"
  shows "queues s k = Some a" and "inflight_of k s = []"
    and "k' \<noteq> k \<Longrightarrow> queues s k' \<noteq> Some a"
proof -
  note D = struct_invD[OF inv]
  show "queues s k = Some a" using D(1)[of k a] by (simp add: owned_def)
  show "inflight_of k s = []" using D(6)[of k a] by (simp add: inflight_of_def filter_key_absent)
  show "k' \<noteq> k \<Longrightarrow> queues s k' \<noteq> Some a"
    using D(1)[of k' a] D(1)[of k a] D(4)[of k a k'] by (auto simp: owned_def)
qed

lemma backlog_other:
  assumes "queues s' = queues s" "heap s' = (heap s)(a := es)" "queues s k \<noteq> Some a"
  shows "backlog_of k s' = backlog_of k s"
  using assms by (auto simp: backlog_of_def split: option.splits)

lemma inflight_cong: "workers s' = workers s \<Longrightarrow> inflight_of k s' = inflight_of k s"
  by (simp add: inflight_of_def)

lemma acct_exit:
  assumes st: "struct_inv (Some (k, a)) s" and inv: "acct_inv s" and emp: "heap s a = []"
    and eqs: "trace s' = trace s @ [WorkerExit k]" "workers s' = workers s"
      "queues s' = (queues s)(k := None)" "heap s' = heap s" "next_handle s' = next_handle s"
  shows "acct_inv s'"
proof -
  note A = acct_invD[OF inv]
  note F = act_facts[OF st]
  have bl: "\<And>k'. backlog_of k' s' = backlog_of k' s"
    using F(1) emp by (auto simp: backlog_of_def eqs split: option.splits)
  show ?thesis
    by (rule acct_invI) (use A in \<open>simp_all add: eqs bl inflight_cong[OF eqs(2)]\<close>)
qed

lemma sorted_wrt_mid:
  "sorted_wrt (<) (xs @ (h::nat) # ys) \<Longrightarrow> h0 \<in> set (xs @ h # ys) \<Longrightarrow> h0 < h \<Longrightarrow> h0 \<in> set xs"
  by (auto simp: sorted_wrt_append)

lemma acct_throw:
  assumes st: "struct_inv (Some (k, a)) s" and inv: "acct_inv s" and hd: "heap s a = e # rest"
    and eqs: "trace s' = (trace s @ [Invoked k (handle e) r]) @ [Rejected k (handle e) err]"
      "workers s' = workers s" "queues s' = queues s" "heap s' = (heap s)(a := rest)"
      "next_handle s' = next_handle s"
  shows "acct_inv s'"
proof -
  note A = acct_invD[OF inv]
  note F = act_facts[OF st]
  have bl: "\<And>k'. k' \<noteq> k \<Longrightarrow> backlog_of k' s' = backlog_of k' s"
    using F(3) by (intro backlog_other[OF eqs(3,4)])
  have blk: "backlog_of k s = handle e # map handle rest" "backlog_of k s' = map handle rest"
    using F(1) hd by (simp_all add: backlog_of_def eqs)
  note infl = inflight_cong[OF eqs(2)]
  show ?thesis
  proof (rule acct_invI)
    fix k' show "submitted_of k' (trace s') = settled_of k' (trace s') @ inflight_of k' s' @ backlog_of k' s'"
      using A(1)[of k'] F(2) by (cases "k' = k") (simp_all add: eqs bl blk infl)
  next
    fix k' show "invoked_of k' (trace s') = settled_of k' (trace s') @ inflight_of k' s'"
      using A(2)[of k'] F(2) by (cases "k' = k") (simp_all add: eqs infl)
  qed (use A in \<open>simp_all add: eqs\<close>)
qed

lemma acct_susp:
  assumes st: "struct_inv (Some (k, a)) s" and inv: "acct_inv s" and hd: "heap s a = e # rest"
    and eqs: "trace s' = trace s @ [Invoked k (handle e) r]"
      "workers s' = workers s @ [\<lparr> tenantId = k, queue = a, current = handle e \<rparr>]"
      "queues s' = queues s" "heap s' = (heap s)(a := rest)"
      "next_handle s' = next_handle s"
  shows "acct_inv s'"
proof -
  note A = acct_invD[OF inv]
  note F = act_facts[OF st]
  have bl: "\<And>k'. k' \<noteq> k \<Longrightarrow> backlog_of k' s' = backlog_of k' s"
    using F(3) by (intro backlog_other[OF eqs(3,4)])
  have blk: "backlog_of k s = handle e # map handle rest" "backlog_of k s' = map handle rest"
    using F(1) hd by (simp_all add: backlog_of_def eqs)
  have infl: "\<And>k'. inflight_of k' s' = (if k' = k then [handle e] else inflight_of k' s)"
    using F(2) by (auto simp: inflight_of_def eqs)
  show ?thesis
  proof (rule acct_invI)
    fix k' show "submitted_of k' (trace s') = settled_of k' (trace s') @ inflight_of k' s' @ backlog_of k' s'"
      using A(1)[of k'] F(2) by (cases "k' = k") (simp_all add: eqs bl blk infl)
  next
    fix k' show "invoked_of k' (trace s') = settled_of k' (trace s') @ inflight_of k' s'"
      using A(2)[of k'] F(2) by (cases "k' = k") (simp_all add: eqs infl)
  qed (use A in \<open>simp_all add: eqs\<close>)
qed

lemma acct_push:
  assumes st: "struct_inv None s" and inv: "acct_inv s" and reg: "queues s k = Some a"
    and h: "handle e = next_handle s"
    and eqs: "trace s' = trace s @ [Submitted k (next_handle s)]"
      "workers s' = workers s" "queues s' = queues s" "heap s' = (heap s)(a := heap s a @ [e])"
      "next_handle s' = Suc (next_handle s)"
  shows "acct_inv s'"
proof -
  note A = acct_invD[OF inv]
  note D = struct_invD[OF st]
  have other: "\<And>k'. k' \<noteq> k \<Longrightarrow> queues s k' \<noteq> Some a"
    using D(1)[of _ a] D(4)[of k a] reg by blast
  have bl: "\<And>k'. k' \<noteq> k \<Longrightarrow> backlog_of k' s' = backlog_of k' s"
    using other by (intro backlog_other[OF eqs(3,4)])
  have blk: "backlog_of k s' = backlog_of k s @ [next_handle s]"
    using reg h by (simp add: backlog_of_def eqs)
  note infl = inflight_cong[OF eqs(2)]
  have fresh: "\<And>k'. next_handle s \<notin> set (submitted_of k' (trace s))"
    using A(3) by blast
  show ?thesis
  proof (rule acct_invI)
    fix k' show "submitted_of k' (trace s') = settled_of k' (trace s') @ inflight_of k' s' @ backlog_of k' s'"
      using A(1)[of k'] by (cases "k' = k") (simp_all add: eqs bl blk infl)
  next
    fix k' show "invoked_of k' (trace s') = settled_of k' (trace s') @ inflight_of k' s'"
      using A(2)[of k'] by (simp add: eqs infl)
  next
    fix k' h' assume "h' \<in> set (submitted_of k' (trace s'))" then show "h' < next_handle s'"
      using A(3)[of h' k'] by (auto simp: eqs split: if_splits)
  next
    fix k' show "sorted_wrt (<) (submitted_of k' (trace s'))"
      using A(4)[of k'] A(3)[of _ k'] by (auto simp: eqs sorted_wrt_append)
  next
    fix k' k'' :: 'a assume "k' \<noteq> k''"
    then show "set (submitted_of k' (trace s')) \<inter> set (submitted_of k'' (trace s')) = {}"
      using A(5)[of k' k''] fresh by (auto simp: eqs)
  qed
qed

lemma idle_facts:
  assumes st: "struct_inv None s" and idle: "queues s k = None"
  shows "inflight_of k s = []" and "backlog_of k s = []" and "k \<notin> processing s"
    and "queues s k' = Some a \<Longrightarrow> a < next_addr s"
proof -
  note D = struct_invD[OF st]
  have no: "\<And>a. \<not> owned None s k a" using D(1)[of k] idle by simp
  then have "k \<notin> tenantId ` set (workers s)" by (auto simp: owned_def)
  then show "inflight_of k s = []" by (simp add: inflight_of_def filter_key_absent)
  show "backlog_of k s = []" using idle by (simp add: backlog_of_def)
  show "k \<notin> processing s" using D(2)[of k] no by simp
  show "queues s k' = Some a \<Longrightarrow> a < next_addr s" using D(1)[of k' a] D(3)[of k' a] by simp
qed

lemma acct_start:
  assumes st: "struct_inv None s" and inv: "acct_inv s" and idle: "queues s k = None"
    and h: "handle e = next_handle s"
    and eqs: "trace s' = trace s @ [Submitted k (next_handle s), WorkerStart k]"
      "workers s' = workers s" "queues s' = (queues s)(k \<mapsto> next_addr s)"
      "heap s' = (heap s)(next_addr s := [e])"
      "next_handle s' = Suc (next_handle s)"
  shows "acct_inv s'"
proof -
  note A = acct_invD[OF inv]
  note F = idle_facts[OF st idle]
  have bl: "\<And>k'. k' \<noteq> k \<Longrightarrow> backlog_of k' s' = backlog_of k' s"
    using F(4) by (fastforce simp: backlog_of_def eqs split: option.splits)
  have blk: "backlog_of k s' = [next_handle s]"
    using h by (simp add: backlog_of_def eqs)
  note infl = inflight_cong[OF eqs(2)]
  have fresh: "\<And>k'. next_handle s \<notin> set (submitted_of k' (trace s))"
    using A(3) by blast
  show ?thesis
  proof (rule acct_invI)
    fix k' show "submitted_of k' (trace s') = settled_of k' (trace s') @ inflight_of k' s' @ backlog_of k' s'"
      using A(1)[of k'] F(1,2) by (cases "k' = k") (simp_all add: eqs bl blk infl)
  next
    fix k' show "invoked_of k' (trace s') = settled_of k' (trace s') @ inflight_of k' s'"
      using A(2)[of k'] by (simp add: eqs infl)
  next
    fix k' h' assume "h' \<in> set (submitted_of k' (trace s'))" then show "h' < next_handle s'"
      using A(3)[of h' k'] by (auto simp: eqs split: if_splits)
  next
    fix k' show "sorted_wrt (<) (submitted_of k' (trace s'))"
      using A(4)[of k'] A(3)[of _ k'] by (auto simp: eqs sorted_wrt_append)
  next
    fix k' k'' :: 'a assume "k' \<noteq> k''"
    then show "set (submitted_of k' (trace s')) \<inter> set (submitted_of k'' (trace s')) = {}"
      using A(5)[of k' k''] fresh by (auto simp: eqs)
  qed
qed

lemma worker_facts:
  assumes st: "struct_inv None s" and f: "f \<in> set (workers s)"
  shows "inflight_of (tenantId f) s = [current f]"
    and "queues s (tenantId f) = Some (queue f)"
proof -
  note D = struct_invD[OF st]
  show "inflight_of (tenantId f) s = [current f]"
    using filter_key_unique[OF D(5) f] by (simp add: inflight_of_def)
  show "queues s (tenantId f) = Some (queue f)"
    using D(1)[of "tenantId f" "queue f"] f by (auto simp: owned_def)
qed

lemma acct_resume:
  assumes st: "struct_inv None s" and inv: "acct_inv s" and f: "f \<in> set (workers s)"
    and ev: "\<And>k. submitted_ev k ev = []" "\<And>k. invoked_ev k ev = []"
      "\<And>k. settled_ev k ev = (if k = tenantId f then [current f] else [])"
    and eqs: "trace s' = trace s @ [ev]"
      "workers s' = remove1 f (workers s)" "queues s' = queues s" "heap s' = heap s"
      "next_handle s' = next_handle s"
  shows "acct_inv s'"
proof -
  note A = acct_invD[OF inv]
  note D = struct_invD[OF st]
  note W = worker_facts[OF st f]
  have bl: "\<And>k'. backlog_of k' s' = backlog_of k' s"
    by (auto simp: backlog_of_def eqs split: option.splits)
  have infl: "\<And>k'. inflight_of k' s' = (if k' = tenantId f then [] else inflight_of k' s)"
    using filter_key_remove1[OF D(5) f] by (simp add: inflight_of_def eqs)
  show ?thesis
  proof (rule acct_invI)
    fix k' show "submitted_of k' (trace s') = settled_of k' (trace s') @ inflight_of k' s' @ backlog_of k' s'"
      using A(1)[of k'] W(1) by (cases "k' = tenantId f") (simp_all add: eqs bl infl ev)
  next
    fix k' show "invoked_of k' (trace s') = settled_of k' (trace s') @ inflight_of k' s'"
      using A(2)[of k'] W(1) by (cases "k' = tenantId f") (simp_all add: eqs infl ev)
  qed (use A in \<open>simp_all add: eqs ev\<close>)
qed

lemma invoked_ev_Nil: "invoked_ev k ev = [] \<Longrightarrow> ev \<noteq> Invoked k h r"
  by (cases ev) auto

lemma invoked_nth:
  "n < length tr \<Longrightarrow> tr ! n = Invoked k h r \<Longrightarrow> h \<in> set (invoked_of k tr)"
proof -
  assume "n < length tr" "tr ! n = Invoked k h r"
  then have "Invoked k h r \<in> set tr" by (metis nth_mem)
  then show ?thesis by (auto simp: invoked_of_def intro!: bexI[of _ "Invoked k h r"])
qed

lemma ordered_snoc_neutral:
  assumes "submitted_ev k ev = []" "invoked_ev k ev = []"
  shows "ordered k (tr @ [ev]) = ordered k tr"
  using assms invoked_ev_Nil[of k ev]
  by (auto simp: ordered_def nth_append less_Suc_eq)

lemma ordered_append_neutral:
  assumes "\<forall>ev \<in> set evs. submitted_ev k ev = [] \<and> invoked_ev k ev = []"
  shows "ordered k (tr @ evs) = ordered k tr"
  using assms
proof (induction evs rule: rev_induct)
  case Nil then show ?case by simp
next
  case (snoc ev evs)
  have "ordered k ((tr @ evs) @ [ev]) = ordered k (tr @ evs)"
    using snoc.prems by (intro ordered_snoc_neutral) auto
  then show ?case using snoc by simp
qed

lemma ordered_snoc_invoke:
  assumes "ordered k tr"
    and "\<And>h0. h0 \<in> set (submitted_of k tr) \<Longrightarrow> h0 < h \<Longrightarrow> h0 \<in> set (settled_of k tr)"
  shows "ordered k (tr @ [Invoked k h r])"
  using assms by (auto simp: ordered_def nth_append less_Suc_eq)

lemma ordered_snoc_submit:
  assumes "ordered k tr"
    and "\<And>h'. h' \<in> set (invoked_of k tr) \<Longrightarrow> h' < h"
  shows "ordered k (tr @ [Submitted k h])"
  unfolding ordered_def
proof (intro allI impI ballI)
  fix n h' r h0
  assume n: "n < length (tr @ [Submitted k h])" and at: "(tr @ [Submitted k h]) ! n = Invoked k h' r"
    and h0: "h0 \<in> set (submitted_of k (tr @ [Submitted k h]))" and lt: "h0 < h'"
  have n': "n < length tr" using n at by (cases "n = length tr") auto
  then have at': "tr ! n = Invoked k h' r" using at by (simp add: nth_append)
  have "h' < h" using assms(2) invoked_nth[OF n' at'] by blast
  then have "h0 \<in> set (submitted_of k tr)" using h0 lt by auto
  then have "h0 \<in> set (settled_of k (take n tr))"
    using assms(1) n' at' lt unfolding ordered_def by blast
  then show "h0 \<in> set (settled_of k (take n (tr @ [Submitted k h])))" using n' by simp
qed

lemma trace_invI:
  assumes "\<And>k. ordered k (trace s)"
    and "\<And>k. wstate k (trace s) = Some (k \<in> processing s)"
    and "\<And>k. ostate k (trace s) = Some (case inflight_of k s of [] \<Rightarrow> None | h # _ \<Rightarrow> Some h)"
  shows "trace_inv s"
  unfolding trace_inv_def using assms by blast

lemma trace_invD:
  assumes "trace_inv s"
  shows "ordered k (trace s)"
    and "wstate k (trace s) = Some (k \<in> processing s)"
    and "ostate k (trace s) = Some (case inflight_of k s of [] \<Rightarrow> None | h # _ \<Rightarrow> Some h)"
proof -
  note u = assms[unfolded trace_inv_def]
  show "ordered k (trace s)" using u[THEN conjunct1] by blast
  show "wstate k (trace s) = Some (k \<in> processing s)" using u[THEN conjunct2, THEN conjunct1] by blast
  show "ostate k (trace s) = Some (case inflight_of k s of [] \<Rightarrow> None | h # _ \<Rightarrow> Some h)"
    using u[THEN conjunct2, THEN conjunct2] by blast
qed

lemma act_processing:
  assumes "struct_inv (Some (k, a)) s" shows "k \<in> processing s"
  using struct_invD(2)[OF assms, of k] by (auto simp: owned_def)

lemma trace_exit:
  assumes st: "struct_inv (Some (k, a)) s" and inv: "trace_inv s"
    and eqs: "trace s' = trace s @ [WorkerExit k]" "workers s' = workers s"
      "processing s' = processing s - {k}"
  shows "trace_inv s'"
proof -
  note T = trace_invD[OF inv]
  note infl = inflight_cong[OF eqs(2)]
  show ?thesis
  proof (rule trace_invI)
    fix k' show "ordered k' (trace s')" using T(1)[of k'] by (simp add: eqs ordered_snoc_neutral)
  next
    fix k' show "wstate k' (trace s') = Some (k' \<in> processing s')"
      using T(2)[of k'] act_processing[OF st] by (auto simp: eqs)
  next
    fix k' show "ostate k' (trace s') = Some (case inflight_of k' s' of [] \<Rightarrow> None | h # _ \<Rightarrow> Some h)"
      using T(3)[of k'] by (simp add: eqs infl)
  qed
qed

lemma head_is_next:
  assumes st: "struct_inv (Some (k, a)) s" and ac: "acct_inv s" and hd: "heap s a = e # rest"
    and h0: "h0 \<in> set (submitted_of k (trace s))" "h0 < handle e"
  shows "h0 \<in> set (settled_of k (trace s))"
proof -
  note F = act_facts[OF st]
  have "submitted_of k (trace s) = settled_of k (trace s) @ handle e # map handle rest"
    using acct_invD(1)[OF ac, of k] F(1,2) hd by (simp add: backlog_of_def)
  then show ?thesis using sorted_wrt_mid[of "settled_of k (trace s)" "handle e" "map handle rest" h0]
      acct_invD(4)[OF ac, of k] h0 by simp
qed

lemma trace_throw:
  assumes st: "struct_inv (Some (k, a)) s" and ac: "acct_inv s" and inv: "trace_inv s"
    and hd: "heap s a = e # rest"
    and eqs: "trace s' = (trace s @ [Invoked k (handle e) r]) @ [Rejected k (handle e) err]"
      "workers s' = workers s" "processing s' = processing s"
  shows "trace_inv s'"
proof -
  note T = trace_invD[OF inv]
  note F = act_facts[OF st]
  note infl = inflight_cong[OF eqs(2)]
  show ?thesis
  proof (rule trace_invI)
    fix k' show "ordered k' (trace s')"
    proof (cases "k' = k")
      case True
      have "ordered k (trace s @ [Invoked k (handle e) r])"
        using T(1)[of k] head_is_next[OF st ac hd] by (intro ordered_snoc_invoke)
      then show ?thesis unfolding eqs True by (simp only: ordered_snoc_neutral submitted_ev.simps invoked_ev.simps)
    next
      case False
      then show ?thesis using T(1)[of k'] unfolding eqs by (simp add: ordered_append_neutral)
    qed
  next
    fix k' show "wstate k' (trace s') = Some (k' \<in> processing s')"
      using T(2)[of k'] by (simp add: eqs)
  next
    fix k' show "ostate k' (trace s') = Some (case inflight_of k' s' of [] \<Rightarrow> None | h # _ \<Rightarrow> Some h)"
      using T(3)[of k'] F(2) by (cases "k' = k") (simp_all add: eqs infl)
  qed
qed

lemma trace_susp:
  assumes st: "struct_inv (Some (k, a)) s" and ac: "acct_inv s" and inv: "trace_inv s"
    and hd: "heap s a = e # rest"
    and eqs: "trace s' = trace s @ [Invoked k (handle e) r]"
      "workers s' = workers s @ [\<lparr> tenantId = k, queue = a, current = handle e \<rparr>]"
      "processing s' = processing s"
  shows "trace_inv s'"
proof -
  note T = trace_invD[OF inv]
  note F = act_facts[OF st]
  have infl: "\<And>k'. inflight_of k' s' = (if k' = k then [handle e] else inflight_of k' s)"
    using F(2) by (auto simp: inflight_of_def eqs)
  show ?thesis
  proof (rule trace_invI)
    fix k' show "ordered k' (trace s')"
    proof (cases "k' = k")
      case True
      show ?thesis unfolding eqs True
        using T(1)[of k] head_is_next[OF st ac hd] by (intro ordered_snoc_invoke)
    next
      case False
      then show ?thesis using T(1)[of k'] unfolding eqs by (simp add: ordered_append_neutral)
    qed
  next
    fix k' show "wstate k' (trace s') = Some (k' \<in> processing s')"
      using T(2)[of k'] by (simp add: eqs)
  next
    fix k' show "ostate k' (trace s') = Some (case inflight_of k' s' of [] \<Rightarrow> None | h # _ \<Rightarrow> Some h)"
      using T(3)[of k'] F(2) by (cases "k' = k") (simp_all add: eqs infl)
  qed
qed

lemma invoked_below:
  assumes ac: "acct_inv s" and h: "h \<in> set (invoked_of k (trace s))"
  shows "h < next_handle s"
proof -
  have "h \<in> set (submitted_of k (trace s))"
    using h acct_invD(1)[OF ac, of k] acct_invD(2)[OF ac, of k] by auto
  then show ?thesis using acct_invD(3)[OF ac] by blast
qed

lemma trace_push:
  assumes ac: "acct_inv s" and inv: "trace_inv s"
    and eqs: "trace s' = trace s @ [Submitted k (next_handle s)]"
      "workers s' = workers s" "processing s' = processing s"
  shows "trace_inv s'"
proof -
  note T = trace_invD[OF inv]
  note infl = inflight_cong[OF eqs(2)]
  show ?thesis
  proof (rule trace_invI)
    fix k' show "ordered k' (trace s')"
    proof (cases "k' = k")
      case True
      show ?thesis unfolding eqs True
        using T(1)[of k] invoked_below[OF ac] by (intro ordered_snoc_submit)
    next
      case False
      then show ?thesis using T(1)[of k'] unfolding eqs by (simp add: ordered_append_neutral)
    qed
  next
    fix k' show "wstate k' (trace s') = Some (k' \<in> processing s')"
      using T(2)[of k'] by (simp add: eqs)
  next
    fix k' show "ostate k' (trace s') = Some (case inflight_of k' s' of [] \<Rightarrow> None | h # _ \<Rightarrow> Some h)"
      using T(3)[of k'] by (simp add: eqs infl)
  qed
qed

lemma trace_start:
  assumes st: "struct_inv None s" and ac: "acct_inv s" and inv: "trace_inv s"
    and idle: "queues s k = None"
    and eqs: "trace s' = (trace s @ [Submitted k (next_handle s)]) @ [WorkerStart k]"
      "workers s' = workers s" "processing s' = insert k (processing s)"
  shows "trace_inv s'"
proof -
  note T = trace_invD[OF inv]
  note infl = inflight_cong[OF eqs(2)]
  note F = idle_facts[OF st idle]
  show ?thesis
  proof (rule trace_invI)
    fix k' show "ordered k' (trace s')"
    proof (cases "k' = k")
      case True
      have "ordered k (trace s @ [Submitted k (next_handle s)])"
        using T(1)[of k] invoked_below[OF ac] by (intro ordered_snoc_submit)
      then show ?thesis unfolding eqs True
        by (simp only: ordered_snoc_neutral submitted_ev.simps invoked_ev.simps)
    next
      case False
      then show ?thesis using T(1)[of k'] unfolding eqs by (simp add: ordered_append_neutral)
    qed
  next
    fix k' show "wstate k' (trace s') = Some (k' \<in> processing s')"
      using T(2)[of k'] F(3) by (auto simp: eqs)
  next
    fix k' show "ostate k' (trace s') = Some (case inflight_of k' s' of [] \<Rightarrow> None | h # _ \<Rightarrow> Some h)"
      using T(3)[of k'] by (simp add: eqs infl)
  qed
qed

lemma trace_resume:
  assumes st: "struct_inv None s" and inv: "trace_inv s" and f: "f \<in> set (workers s)"
    and ev: "ev = Resolved (tenantId f) (current f) v \<or> ev = Rejected (tenantId f) (current f) err"
    and eqs: "trace s' = trace s @ [ev]"
      "workers s' = remove1 f (workers s)" "processing s' = processing s"
  shows "trace_inv s'"
proof -
  note T = trace_invD[OF inv]
  note D = struct_invD[OF st]
  note W = worker_facts[OF st f]
  have infl: "\<And>k'. inflight_of k' s' = (if k' = tenantId f then [] else inflight_of k' s)"
    using filter_key_remove1[OF D(5) f] by (simp add: inflight_of_def eqs)
  show ?thesis
  proof (rule trace_invI)
    fix k' show "ordered k' (trace s')"
      using T(1)[of k'] ev unfolding eqs by (auto simp: ordered_append_neutral)
  next
    fix k' show "wstate k' (trace s') = Some (k' \<in> processing s')"
      using T(2)[of k'] ev by (auto simp: eqs)
  next
    fix k' show "ostate k' (trace s') = Some (case inflight_of k' s' of [] \<Rightarrow> None | h # _ \<Rightarrow> Some h)"
      using T(3)[of k'] W(1) ev by (cases "k' = tenantId f") (auto simp: eqs infl)
  qed
qed

declare processLoop.simps [simp del]

lemma processLoop_Nil:
  "heap s a = [] \<Longrightarrow>
   processLoop k a s = s\<lparr> processing := processing s - {k}, trace := trace s @ [WorkerExit k],
                            queues := (queues s)(k := None) \<rparr>"
  by (subst processLoop.simps) (simp add: finish_def)

lemma processLoop_throw:
  "heap s a = e # rest \<Longrightarrow> operation e (world s) = (w', Some err) \<Longrightarrow>
   processLoop k a s =
     processLoop k a (s\<lparr> heap := (heap s)(a := rest), world := w',
        trace := trace s @ [Invoked k (handle e) (Some err), Rejected k (handle e) err] \<rparr>)"
  by (subst processLoop.simps) (simp add: invoke_def)

lemma processLoop_susp:
  "heap s a = e # rest \<Longrightarrow> operation e (world s) = (w', None) \<Longrightarrow>
   processLoop k a s =
     s\<lparr> heap := (heap s)(a := rest), world := w',
        trace := trace s @ [Invoked k (handle e) None],
        workers := workers s @ [\<lparr> tenantId = k, queue = a, current = handle e \<rparr>] \<rparr>"
  by (subst processLoop.simps) (simp add: invoke_def)

lemma ginvD:
  assumes "ginv act s" shows "struct_inv act s" "acct_inv s" "trace_inv s"
  using assms by (simp_all add: ginv_def)

lemma processLoop_ginv:
  "ginv (Some (k, a)) s \<Longrightarrow> ginv None (processLoop k a s)"
proof (induction k a s rule: processLoop.induct)
  case (1 k a s)
  note G = ginvD[OF "1.prems"]
  show ?case
  proof (cases "heap s a")
    case Nil
    show ?thesis unfolding processLoop_Nil[OF Nil] ginv_def
      by (intro conjI struct_exit[OF G(1)] acct_exit[OF G(1,2) Nil] trace_exit[OF G(1,3)]) simp_all
  next
    case (Cons e rest)
    obtain w' r where op: "operation e (world s) = (w', r)" by (cases "operation e (world s)")
    show ?thesis
    proof (cases r)
      case None
      show ?thesis unfolding processLoop_susp[OF Cons op[unfolded None]] ginv_def
        by (intro conjI struct_susp[OF G(1)] acct_susp[OF G(1,2) Cons] trace_susp[OF G(1,2,3) Cons]) simp_all
    next
      case (Some err)
      let ?s' = "s\<lparr> heap := (heap s)(a := rest), world := w',
        trace := trace s @ [Invoked k (handle e) (Some err), Rejected k (handle e) err] \<rparr>"
      have inv: "invoke k a e rest s = (Some err, s\<lparr> heap := (heap s)(a := rest), world := w',
                trace := trace s @ [Invoked k (handle e) (Some err)] \<rparr>)"
        using op Some by (simp add: invoke_def)
      have g: "ginv (Some (k, a)) ?s'" unfolding ginv_def
        by (intro conjI struct_same[OF G(1)] acct_throw[OF G(1,2) Cons] trace_throw[OF G(1,2,3) Cons]) simp_all
      have "ginv None (processLoop k a ?s')"
        using "1.IH"[OF Cons inv[symmetric] refl] g by simp
      then show ?thesis unfolding processLoop_throw[OF Cons op[unfolded Some]] .
    qed
  qed
qed

lemma enqueue_idle:
  assumes "queues s k = None" "k \<notin> processing s"
  shows "enqueue k opn s =
    (Inr (next_handle s),
     processLoop k (next_addr s)
       (s\<lparr> queues := (queues s)(k \<mapsto> next_addr s),
           next_addr := Suc (next_addr s),
           heap := (heap s)(next_addr s := [\<lparr> operation = opn, handle = next_handle s \<rparr>]),
           next_handle := Suc (next_handle s),
           processing := insert k (processing s),
           trace := trace s @ [Submitted k (next_handle s), WorkerStart k] \<rparr>))"
  using assms by (simp add: enqueue_def processQueue_def Let_def)

lemma enqueue_busy:
  assumes "queues s k = Some a" "k \<in> processing s"
  shows "enqueue k opn s =
    (Inr (next_handle s),
     s\<lparr> heap := (heap s)(a := heap s a @ [\<lparr> operation = opn, handle = next_handle s \<rparr>]),
        next_handle := Suc (next_handle s),
        trace := trace s @ [Submitted k (next_handle s)] \<rparr>)"
  using assms by (simp add: enqueue_def Let_def)

lemma registered_processing:
  assumes "struct_inv None s"
  shows "(k \<in> processing s) = (queues s k \<noteq> None)"
  using struct_invD(1)[OF assms, of k] struct_invD(2)[OF assms, of k] by auto

lemma enqueue_ginv:
  assumes g: "ginv None s"
  shows "ginv None (snd (enqueue k opn s))"
proof -
  note G = ginvD[OF g]
  show ?thesis
  proof (cases "queues s k")
    case None
    then have np: "k \<notin> processing s" using registered_processing[OF G(1), of k] by simp
    let ?s' = "s\<lparr> queues := (queues s)(k \<mapsto> next_addr s),
           next_addr := Suc (next_addr s),
           heap := (heap s)(next_addr s := [\<lparr> operation = opn, handle = next_handle s \<rparr>]),
           next_handle := Suc (next_handle s),
           processing := insert k (processing s),
           trace := trace s @ [Submitted k (next_handle s), WorkerStart k] \<rparr>"
    have "ginv (Some (k, next_addr s)) ?s'" unfolding ginv_def
      by (intro conjI struct_start[OF G(1) None] acct_start[OF G(1,2) None, where e="\<lparr> operation = opn, handle = next_handle s \<rparr>"]
          trace_start[OF G(1,2,3) None]) simp_all
    then show ?thesis unfolding enqueue_idle[OF None np] snd_conv by (rule processLoop_ginv)
  next
    case (Some a)
    then have p: "k \<in> processing s" using registered_processing[OF G(1), of k] by simp
    show ?thesis unfolding enqueue_busy[OF Some p] snd_conv ginv_def
      by (intro conjI struct_same[OF G(1)] acct_push[OF G(1,2) Some, where e="\<lparr> operation = opn, handle = next_handle s \<rparr>"]
          trace_push[OF G(2,3)]) simp_all
  qed
qed

lemma resume_None: "find (\<lambda>f. current f = h) (workers s) = None \<Longrightarrow> resume h out s = s"
  by (simp add: resume_def)

lemma resume_Some:
  "find (\<lambda>f. current f = h) (workers s) = Some f \<Longrightarrow>
   resume h out s =
     processLoop (tenantId f) (queue f)
       (s\<lparr> workers := remove1 f (workers s),
           trace := trace s @ [case out of Inl e \<Rightarrow> Rejected (tenantId f) h e
                                          | Inr v \<Rightarrow> Resolved (tenantId f) h v] \<rparr>)"
  by (simp add: resume_def)

lemma find_SomeD: "find P xs = Some x \<Longrightarrow> x \<in> set xs \<and> P x"
  by (auto simp: find_Some_iff)

lemma resume_ginv:
  assumes g: "ginv None s"
  shows "ginv None (resume h out s)"
proof (cases "find (\<lambda>f. current f = h) (workers s)")
  case None
  then show ?thesis using g by (simp add: resume_None)
next
  case (Some f)
  note G = ginvD[OF g]
  have f: "f \<in> set (workers s)" and h: "current f = h" using find_SomeD[OF Some] by simp_all
  let ?ev = "case out of Inl e \<Rightarrow> Rejected (tenantId f) h e | Inr v \<Rightarrow> Resolved (tenantId f) h v"
  let ?s' = "s\<lparr> workers := remove1 f (workers s), trace := trace s @ [?ev] \<rparr>"
  have "ginv (Some (tenantId f, queue f)) ?s'" unfolding ginv_def
  proof (intro conjI)
    show "struct_inv (Some (tenantId f, queue f)) ?s'"
      by (rule struct_resume[OF G(1) f]) simp_all
    show "acct_inv ?s'"
      by (rule acct_resume[OF G(1,2) f, where ev="?ev"]) (auto simp: h split: sum.splits)
    show "trace_inv ?s'"
      by (rule trace_resume[OF G(1,3) f, where ev="?ev" and v="projr out" and err="projl out"])
         (auto simp: h split: sum.splits)
  qed
  then show ?thesis unfolding resume_Some[OF Some] by (rule processLoop_ginv)
qed

lemma init_ginv: "ginv None (init w)"
  unfolding ginv_def
proof (intro conjI)
  show "struct_inv None (init w)" by (rule struct_invI) (simp_all add: init_def owned_def)
  show "acct_inv (init w)" by (rule acct_invI) (simp_all add: init_def inflight_of_def backlog_of_def)
  show "trace_inv (init w)" by (rule trace_invI) (simp_all add: init_def inflight_of_def ordered_def wstate_def ostate_def)
qed

lemma step_ginv: "ginv None s \<Longrightarrow> ginv None (step t s)"
  by (cases t) (simp_all add: enqueue_ginv resume_ginv)

lemma run_ginv: "ginv None s \<Longrightarrow> ginv None (run ts s)"
  unfolding run_def by (induction ts arbitrary: s) (simp_all add: step_ginv)

lemma run_snoc: "run (ts @ [t]) s = step t (run ts s)"
  by (simp add: run_def)

lemmas run_eval = run_def enqueue_def init_def processQueue_def invoke_def finish_def resume_def
  processLoop.simps returning_def throwing_def backlog_of_def inflight_of_def

lemma reachable_ginv: "ginv None (run ts (init w))"
  by (rule run_ginv[OF init_ginv])

lemma inflight_nonempty:
  "(inflight_of k s \<noteq> []) = (\<exists>f \<in> set (workers s). tenantId f = k)"
  by (auto simp: inflight_of_def filter_empty_conv)

section \<open>Properties of the queue\<close>

text \<open>
  C5. After any sequence of tasks, a key has an entry in the \<open>queues\<close> map if and only
  if entries wait in its array or a worker is executing one of its entries. In particular
  a key whose backlog is drained and whose worker has left is no longer in the map.
\<close>

theorem registry_iff_busy:
  fixes ts :: "('k, 'w, 'e, 'v) task list"
  shows "(k \<in> dom (queues (run ts (init w)))) =
     (backlog_of k (run ts (init w)) \<noteq> [] \<or> inflight_of k (run ts (init w)) \<noteq> [])"
proof -
  let ?s = "run ts (init w) :: ('k, 'w, 'e, 'v) qstate"
  note D = struct_invD[OF ginvD(1)[OF reachable_ginv[of ts w]]]
  have "(queues ?s k \<noteq> None) = (inflight_of k ?s \<noteq> [])"
    using D(1)[of k] by (auto simp: inflight_nonempty owned_def)
  moreover have "backlog_of k ?s \<noteq> [] \<Longrightarrow> queues ?s k \<noteq> None"
    by (auto simp: backlog_of_def split: option.splits)
  ultimately show ?thesis by (auto simp: dom_def)
qed

theorem registry_iff_busy_witness:
  "''a'' \<in> dom (queues (run [Enqueue ''a'' returning, Enqueue ''b'' returning, Settle 1 (Inr (7::int))] (init 0)))
   \<and> ''b'' \<notin> dom (queues (run [Enqueue ''a'' returning, Enqueue ''b'' returning, Settle 1 (Inr (7::int))] (init 0)))"
  using registry_iff_busy[of "''a''" "[Enqueue ''a'' returning, Enqueue ''b'' returning, Settle 1 (Inr (7::int))]" 0]
    registry_iff_busy[of "''b''" "[Enqueue ''a'' returning, Enqueue ''b'' returning, Settle 1 (Inr (7::int))]" 0]
  by (simp add: run_eval)

lemma inflight_le_one:
  assumes "struct_inv None s" shows "length (inflight_of k s) \<le> 1"
proof (cases "\<exists>f \<in> set (workers s). tenantId f = k")
  case True
  then obtain f where f: "f \<in> set (workers s)" "tenantId f = k" by blast
  show ?thesis using worker_facts(1)[OF assms f(1)] f(2) by simp
next
  case False
  then have "inflight_of k s = []" by (auto simp: inflight_of_def filter_empty_conv)
  then show ?thesis by simp
qed

text \<open>
  C2. After any sequence of tasks, in whatever order callers and settlements interleave:
  at most one activation of \<open>processQueue\<close> holds key \<open>k\<close>, and the key is marked as
  processing exactly when there is one; in the trace no worker of \<open>k\<close> starts while
  another is active (\<open>wstate\<close> never fails), and no operation of \<open>k\<close> is called while
  another one of \<open>k\<close> is running (\<open>ostate\<close> never fails); and an \<open>enqueue\<close> for a key
  that is marked starts no worker: it only appends the entry.
\<close>

theorem one_worker_per_key:
  fixes ts :: "('k, 'w, 'e, 'v) task list"
  shows "length (filter (\<lambda>f. tenantId f = k) (workers (run ts (init w)))) \<le> 1
    \<and> (k \<in> processing (run ts (init w))) = (\<exists>f \<in> set (workers (run ts (init w))). tenantId f = k)
    \<and> wstate k (trace (run ts (init w))) = Some (k \<in> processing (run ts (init w)))
    \<and> ostate k (trace (run ts (init w))) =
          Some (case inflight_of k (run ts (init w)) of [] \<Rightarrow> None | h # _ \<Rightarrow> Some h)
    \<and> (k \<in> processing (run ts (init w)) \<longrightarrow>
          workers (snd (enqueue k opn (run ts (init w)))) = workers (run ts (init w)) \<and>
          trace (snd (enqueue k opn (run ts (init w)))) =
            trace (run ts (init w)) @ [Submitted k (next_handle (run ts (init w)))])"
proof -
  let ?s = "run ts (init w) :: ('k, 'w, 'e, 'v) qstate"
  note G = ginvD[OF reachable_ginv[of ts w]]
  note D = struct_invD[OF G(1)]
  note T = trace_invD[OF G(3)]
  have 1: "length (filter (\<lambda>f. tenantId f = k) (workers ?s)) \<le> 1"
    using inflight_le_one[OF G(1), of k] by (simp add: inflight_of_def)
  have 2: "(k \<in> processing ?s) = (\<exists>f \<in> set (workers ?s). tenantId f = k)"
    using D(2)[of k] by (auto simp: owned_def)
  have 5: "workers (snd (enqueue k opn ?s)) = workers ?s \<and>
      trace (snd (enqueue k opn ?s)) = trace ?s @ [Submitted k (next_handle ?s)]"
    if p: "k \<in> processing ?s"
  proof -
    from p obtain a where a: "queues ?s k = Some a"
      using registered_processing[OF G(1), of k] by auto
    show ?thesis unfolding enqueue_busy[OF a p] by simp
  qed
  show ?thesis using 1 2 T(2)[of k] T(3)[of k] 5 by blast
qed

theorem one_worker_per_key_witness:
  "wstate ''a'' (trace (run [Enqueue ''a'' returning, Enqueue ''a'' returning, Enqueue ''a'' throwing,
       Settle 0 (Inr (7::int))] (init 0))) = Some True
   \<and> workers (snd (enqueue ''a'' returning (run [Enqueue ''a'' returning, Enqueue ''a'' returning,
       Enqueue ''a'' throwing, Settle 0 (Inr (7::int))] (init 0))))
      = [\<lparr> tenantId = ''a'', queue = 0, current = 1 \<rparr>]"
  using one_worker_per_key[of "''a''" "[Enqueue ''a'' returning, Enqueue ''a'' returning,
       Enqueue ''a'' throwing, Settle 0 (Inr (7::int))]" 0 returning]
  by (simp add: run_eval)

text \<open>
  C1. After any sequence of tasks, for every key \<open>k\<close>: the operations called so far are
  the first submissions for \<open>k\<close>, in the order of submission, and the entries waiting in
  the array are the remaining ones, in that order, so the worker takes the oldest entry
  not yet started; the settled ones are in turn the first of those called, with at most
  one operation running. Promises are numbered in the order of their creation, and each
  call of an operation of \<open>k\<close> stands in the trace after the settlement of every promise
  created earlier for \<open>k\<close>.
\<close>

theorem fifo_per_key:
  fixes ts :: "('k, 'w, 'e, 'v) task list"
  shows "submitted_of k (trace (run ts (init w))) =
           invoked_of k (trace (run ts (init w))) @ backlog_of k (run ts (init w))
    \<and> invoked_of k (trace (run ts (init w))) =
           settled_of k (trace (run ts (init w))) @ inflight_of k (run ts (init w))
    \<and> length (inflight_of k (run ts (init w))) \<le> 1
    \<and> sorted_wrt (<) (submitted_of k (trace (run ts (init w))))
    \<and> ordered k (trace (run ts (init w)))"
proof -
  let ?s = "run ts (init w) :: ('k, 'w, 'e, 'v) qstate"
  note G = ginvD[OF reachable_ginv[of ts w]]
  note A = acct_invD[OF G(2)]
  note T = trace_invD[OF G(3)]
  have "submitted_of k (trace ?s) = invoked_of k (trace ?s) @ backlog_of k ?s"
    using A(1)[of k] A(2)[of k] by simp
  then show ?thesis using A(2)[of k] A(4)[of k] T(1)[of k] inflight_le_one[OF G(1), of k] by blast
qed

theorem fifo_per_key_witness:
  "trace (run [Enqueue ''a'' returning, Enqueue ''b'' returning, Enqueue ''a'' returning,
      Enqueue ''a'' returning, Settle 0 (Inl ''e''), Settle 2 (Inr (7::int))] (init 0)) ! 11
        = Invoked ''a'' 3 None
   \<and> 2 \<in> set (submitted_of ''a'' (trace (run [Enqueue ''a'' returning, Enqueue ''b'' returning,
      Enqueue ''a'' returning, Enqueue ''a'' returning, Settle 0 (Inl ''e''), Settle 2 (Inr (7::int))] (init 0))))
   \<and> 2 \<in> set (settled_of ''a'' (take 11 (trace (run [Enqueue ''a'' returning, Enqueue ''b'' returning,
      Enqueue ''a'' returning, Enqueue ''a'' returning, Settle 0 (Inl ''e''), Settle 2 (Inr (7::int))] (init 0)))))
   \<and> invoked_of ''a'' (trace (run [Enqueue ''a'' returning, Enqueue ''b'' returning, Enqueue ''a'' returning,
      Enqueue ''a'' returning, Settle 0 (Inl ''e''), Settle 2 (Inr (7::int))] (init 0))) = [0, 2, 3]
   \<and> backlog_of ''a'' (run [Enqueue ''a'' returning, Enqueue ''b'' returning, Enqueue ''a'' returning,
      Enqueue ''a'' returning, Settle 0 (Inl ''e''), Settle 2 (Inr (7::int))] (init 0)) = []"
  using fifo_per_key[of "''a''" "[Enqueue ''a'' returning, Enqueue ''b'' returning, Enqueue ''a'' returning,
      Enqueue ''a'' returning, Settle 0 (Inl ''e''), Settle 2 (Inr (7::int))]" 0]
  by (simp add: run_eval)

lemma settle_count_simps [simp]:
  "settle_count h [] = 0"
  "settle_count h (tr @ tr') = settle_count h tr + settle_count h tr'"
  "settle_count h (ev # tr) = (if settles h ev then 1 else 0) + settle_count h tr"
  by (simp_all add: settle_count_def)

lemma settled_ev_settles: "h \<in> set (settled_ev k ev) \<Longrightarrow> settles h ev"
  by (cases ev) (auto split: if_splits)

lemma settles_settled_ev: "settles h ev \<Longrightarrow> \<exists>k. settled_ev k ev = [h]"
  by (cases ev) auto

lemma settle_count_zero:
  "(\<And>k. h \<notin> set (settled_of k tr)) \<Longrightarrow> settle_count h tr = 0"
proof (induction tr)
  case Nil then show ?case by simp
next
  case (Cons ev tr)
  have "\<not> settles h ev"
  proof
    assume "settles h ev"
    then obtain k where "settled_ev k ev = [h]" using settles_settled_ev by blast
    then show False using Cons.prems[of k] by simp
  qed
  moreover have "settle_count h tr = 0" using Cons.prems by (intro Cons.IH) simp
  ultimately show ?case by simp
qed

lemma settle_count_pos:
  "h \<in> set (settled_of k tr) \<Longrightarrow> 1 \<le> settle_count h tr"
proof (induction tr)
  case Nil then show ?case by simp
next
  case (Cons ev tr)
  then show ?case using settled_ev_settles[of h k ev] by auto
qed

lemma settle_count_le_one:
  assumes "\<And>k. distinct (settled_of k tr)"
    and "\<And>k k'. k \<noteq> k' \<Longrightarrow> set (settled_of k tr) \<inter> set (settled_of k' tr) = {}"
  shows "settle_count h tr \<le> 1"
  using assms
proof (induction tr rule: rev_induct)
  case Nil then show ?case by simp
next
  case (snoc ev tr)
  have d: "\<And>k. distinct (settled_of k tr)" using snoc.prems(1) by simp
  have j: "\<And>k k'. k \<noteq> k' \<Longrightarrow> set (settled_of k tr) \<inter> set (settled_of k' tr) = {}"
    using snoc.prems(2) by fastforce
  have ih: "settle_count h tr \<le> 1" using snoc.IH d j by blast
  show ?case
  proof (cases "settles h ev")
    case False then show ?thesis using ih by simp
  next
    case True
    then obtain k where k: "settled_ev k ev = [h]" using settles_settled_ev by blast
    have "h \<notin> set (settled_of k' tr)" for k'
    proof (cases "k' = k")
      case True then show ?thesis using snoc.prems(1)[of k] k by simp
    next
      case False
      then show ?thesis using snoc.prems(2)[of k k'] k by auto
    qed
    then have "settle_count h tr = 0" by (rule settle_count_zero)
    then show ?thesis by simp
  qed
qed

lemma acct_distinct:
  assumes "acct_inv s"
  shows "distinct (settled_of k (trace s) @ inflight_of k s @ backlog_of k s)"
    and "k \<noteq> k' \<Longrightarrow> set (settled_of k (trace s)) \<inter> set (settled_of k' (trace s)) = {}"
proof -
  note A = acct_invD[OF assms]
  have "distinct (submitted_of k (trace s))"
    using A(4)[of k] by (simp add: strict_sorted_iff)
  then show "distinct (settled_of k (trace s) @ inflight_of k s @ backlog_of k s)"
    using A(1)[of k] by simp
  have sub: "\<And>k. set (settled_of k (trace s)) \<subseteq> set (submitted_of k (trace s))"
    using A(1) by auto
  show "k \<noteq> k' \<Longrightarrow> set (settled_of k (trace s)) \<inter> set (settled_of k' (trace s)) = {}"
    using A(5)[of k k'] sub[of k] sub[of k'] by blast
qed

lemma justified_mono: "justified ts tr \<Longrightarrow> set ts \<subseteq> set ts' \<Longrightarrow> justified ts' tr"
  unfolding justified_def by blast

lemma justified_append_plain:
  assumes "justified ts tr"
    and "\<forall>ev \<in> set evs. (\<forall>k h v. ev \<noteq> Resolved k h v) \<and> (\<forall>k h e. ev \<noteq> Rejected k h e)"
  shows "justified ts (tr @ evs)"
  using assms unfolding justified_def set_append by blast

lemma justified_throw:
  assumes "justified ts tr"
  shows "justified ts (tr @ [Invoked k h (Some err), Rejected k h err])"
  using assms unfolding justified_def set_append by (simp; blast)

lemma justified_settle:
  assumes "justified ts tr" and "Settle h out \<in> set ts"
  shows "justified ts (tr @ [case out of Inl e \<Rightarrow> Rejected k h e | Inr v \<Rightarrow> Resolved k h v])"
  using assms unfolding justified_def set_append by (cases out) (simp; blast)+

lemma processLoop_justified:
  "justified ts (trace s) \<Longrightarrow> justified ts (trace (processLoop k a s))"
proof (induction k a s rule: processLoop.induct)
  case (1 k a s)
  show ?case
  proof (cases "heap s a")
    case Nil
    show ?thesis unfolding processLoop_Nil[OF Nil]
      using "1.prems" by (simp add: justified_append_plain)
  next
    case (Cons e rest)
    obtain w' r where op: "operation e (world s) = (w', r)" by (cases "operation e (world s)")
    show ?thesis
    proof (cases r)
      case None
      show ?thesis unfolding processLoop_susp[OF Cons op[unfolded None]]
        using "1.prems" by (simp add: justified_append_plain)
    next
      case (Some err)
      let ?s' = "s\<lparr> heap := (heap s)(a := rest), world := w',
        trace := trace s @ [Invoked k (handle e) (Some err), Rejected k (handle e) err] \<rparr>"
      have inv: "invoke k a e rest s = (Some err, s\<lparr> heap := (heap s)(a := rest), world := w',
                trace := trace s @ [Invoked k (handle e) (Some err)] \<rparr>)"
        using op Some by (simp add: invoke_def)
      have "justified ts (trace ?s')" using justified_throw[OF "1.prems"] by simp
      then have "justified ts (trace (processLoop k a ?s'))"
        using "1.IH"[OF Cons inv[symmetric] refl] by simp
      then show ?thesis unfolding processLoop_throw[OF Cons op[unfolded Some]] .
    qed
  qed
qed

lemma processQueue_justified:
  "justified ts (trace s) \<Longrightarrow> justified ts (trace (processQueue k s))"
  unfolding processQueue_def Let_def
  by (auto split: option.splits intro!: processLoop_justified simp: justified_append_plain)

lemma enqueue_justified:
  "justified ts (trace s) \<Longrightarrow> justified ts (trace (snd (enqueue k opn s)))"
  unfolding enqueue_def Let_def
  by (auto split: option.splits intro!: processQueue_justified simp: justified_append_plain)

lemma resume_justified:
  assumes "justified ts (trace s)" and "Settle h out \<in> set ts"
  shows "justified ts (trace (resume h out s))"
proof (cases "find (\<lambda>f. current f = h) (workers s)")
  case None then show ?thesis using assms by (simp add: resume_None)
next
  case (Some f)
  show ?thesis unfolding resume_Some[OF Some]
    using justified_settle[OF assms, of "tenantId f"] by (intro processLoop_justified) simp
qed

lemma step_justified:
  "justified ts (trace s) \<Longrightarrow> t \<in> set ts \<Longrightarrow> justified ts (trace (step t s))"
  by (cases t) (simp_all add: enqueue_justified resume_justified)

lemma run_justified: "justified ts (trace (run ts (init w)))"
proof (induction ts rule: rev_induct)
  case Nil
  show ?case by (simp add: run_def init_def justified_def)
next
  case (snoc t ts)
  have "justified (ts @ [t]) (trace (run ts (init w)))"
    using snoc by (rule justified_mono) auto
  then show ?case unfolding run_snoc by (rule step_justified) simp
qed

lemma processLoop_trace_prefix: "\<exists>evs. trace (processLoop k a s) = trace s @ evs"
proof (induction k a s rule: processLoop.induct)
  case (1 k a s)
  show ?case
  proof (cases "heap s a")
    case Nil
    show ?thesis unfolding processLoop_Nil[OF Nil] by simp
  next
    case (Cons e rest)
    obtain w' r where op: "operation e (world s) = (w', r)" by (cases "operation e (world s)")
    show ?thesis
    proof (cases r)
      case None
      show ?thesis unfolding processLoop_susp[OF Cons op[unfolded None]] by simp
    next
      case (Some err)
      have inv: "invoke k a e rest s = (Some err, s\<lparr> heap := (heap s)(a := rest), world := w',
                trace := trace s @ [Invoked k (handle e) (Some err)] \<rparr>)"
        using op Some by (simp add: invoke_def)
      show ?thesis unfolding processLoop_throw[OF Cons op[unfolded Some]]
        using "1.IH"[OF Cons inv[symmetric] refl] by auto
    qed
  qed
qed

lemma inflight_find:
  assumes st: "struct_inv None s" and ac: "acct_inv s" and h: "h \<in> set (inflight_of k s)"
  shows "\<exists>f. find (\<lambda>f. current f = h) (workers s) = Some f \<and> tenantId f = k \<and> f \<in> set (workers s)"
proof -
  note A = acct_invD[OF ac]
  from h obtain g where g: "g \<in> set (workers s)" "current g = h"
    by (auto simp: inflight_of_def)
  then obtain f where f: "find (\<lambda>f. current f = h) (workers s) = Some f"
    by (cases "find (\<lambda>f. current f = h) (workers s)") (auto simp: find_None_iff)
  have fs: "f \<in> set (workers s)" "current f = h" using find_SomeD[OF f] by simp_all
  have "h \<in> set (submitted_of (tenantId f) (trace s))"
    using A(1)[of "tenantId f"] worker_facts(1)[OF st fs(1)] fs(2) by simp
  moreover have "h \<in> set (submitted_of k (trace s))" using A(1)[of k] h by simp
  ultimately have "tenantId f = k" using A(5)[of "tenantId f" k] by blast
  then show ?thesis using f fs by blast
qed

lemma throw_ginv:
  assumes g: "ginv (Some (k, a)) s" and hd: "heap s a = e # rest"
  shows "ginv (Some (k, a)) (s\<lparr> heap := (heap s)(a := rest), world := w',
        trace := trace s @ [Invoked k (handle e) r, Rejected k (handle e) err] \<rparr>)"
proof -
  note G = ginvD[OF g]
  show ?thesis unfolding ginv_def
    by (intro conjI struct_same[OF G(1)] acct_throw[OF G(1,2) hd] trace_throw[OF G(1,2,3) hd]) simp_all
qed

lemma same_for_refl: "same_for k' s s"
  by (simp add: same_for_def split: option.splits)

lemma same_for_trans:
  "same_for k' s s' \<Longrightarrow> same_for k' s' s'' \<Longrightarrow> same_for k' s s''"
  by (auto simp: same_for_def split: option.splits)

lemma processLoop_frame:
  "ginv (Some (k, a)) s \<Longrightarrow> k' \<noteq> k \<Longrightarrow> same_for k' s (processLoop k a s)"
proof (induction k a s rule: processLoop.induct)
  case (1 k a s)
  note G = ginvD[OF "1.prems"(1)]
  note F = act_facts[OF G(1)]
  have na: "queues s k' \<noteq> Some a" using F(3)[of k'] "1.prems"(2) by simp
  show ?case
  proof (cases "heap s a")
    case Nil
    show ?thesis unfolding processLoop_Nil[OF Nil]
      using "1.prems"(2) by (simp add: same_for_def split: option.splits)
  next
    case (Cons e rest)
    obtain w' r where op: "operation e (world s) = (w', r)" by (cases "operation e (world s)")
    show ?thesis
    proof (cases r)
      case None
      show ?thesis unfolding processLoop_susp[OF Cons op[unfolded None]]
        using "1.prems"(2) na by (auto simp: same_for_def split: option.splits)
    next
      case (Some err)
      let ?s' = "s\<lparr> heap := (heap s)(a := rest), world := w',
        trace := trace s @ [Invoked k (handle e) (Some err), Rejected k (handle e) err] \<rparr>"
      have inv: "invoke k a e rest s = (Some err, s\<lparr> heap := (heap s)(a := rest), world := w',
                trace := trace s @ [Invoked k (handle e) (Some err)] \<rparr>)"
        using op Some by (simp add: invoke_def)
      have 1: "same_for k' s ?s'"
        using "1.prems"(2) na by (auto simp: same_for_def split: option.splits)
      have 2: "same_for k' ?s' (processLoop k a ?s')"
        using "1.IH"[OF Cons inv[symmetric] refl] throw_ginv[OF "1.prems"(1) Cons] "1.prems"(2) by simp
      show ?thesis unfolding processLoop_throw[OF Cons op[unfolded Some]]
        by (rule same_for_trans[OF 1 2])
    qed
  qed
qed

lemma processLoop_trace:
  "processLoop k a (s\<lparr> trace := t \<rparr>) =
     (processLoop k a (s\<lparr> trace := [] \<rparr>))\<lparr> trace := t @ trace (processLoop k a (s\<lparr> trace := [] \<rparr>)) \<rparr>"
proof (induction k a s arbitrary: t rule: processLoop.induct)
  case (1 k a s)
  show ?case
  proof (cases "heap s a")
    case Nil
    then have n: "\<And>t. heap (s\<lparr> trace := t \<rparr>) a = []" by simp
    show ?thesis unfolding processLoop_Nil[OF n] by simp
  next
    case (Cons e rest)
    then have c: "\<And>t. heap (s\<lparr> trace := t \<rparr>) a = e # rest" by simp
    obtain w' r where op: "operation e (world s) = (w', r)" by (cases "operation e (world s)")
    then have o: "\<And>t. operation e (world (s\<lparr> trace := t \<rparr>)) = (w', r)" by simp
    show ?thesis
    proof (cases r)
      case None
      show ?thesis unfolding processLoop_susp[OF c o[unfolded None]] by simp
    next
      case (Some err)
      let ?evs = "[Invoked k (handle e) (Some err), Rejected k (handle e) err]"
      define s2 where "s2 = s\<lparr> heap := (heap s)(a := rest), world := w' \<rparr>"
      define Y where "Y = processLoop k a (s2\<lparr> trace := [] \<rparr>)"
      have inv: "invoke k a e rest s = (Some err, s\<lparr> heap := (heap s)(a := rest), world := w',
                trace := trace s @ [Invoked k (handle e) (Some err)] \<rparr>)"
        using op Some by (simp add: invoke_def)
      have upd: "\<And>t'. (s\<lparr> heap := (heap s)(a := rest), world := w',
                trace := trace s @ [Invoked k (handle e) (Some err)] \<rparr>)
                \<lparr>trace := trace (s\<lparr> heap := (heap s)(a := rest), world := w',
                trace := trace s @ [Invoked k (handle e) (Some err)] \<rparr>) @ [Rejected k (handle e) err]\<rparr>
                \<lparr>trace := t'\<rparr> = s2\<lparr> trace := t' \<rparr>"
        unfolding s2_def by (cases s) simp
      have A: "processLoop k a (s2\<lparr> trace := t' \<rparr>) = Y\<lparr> trace := t' @ trace Y \<rparr>" for t'
        using "1.IH"[OF Cons inv[symmetric] refl, of t'] unfolding upd Y_def .
      have step: "processLoop k a (s\<lparr> trace := t' \<rparr>) = processLoop k a (s2\<lparr> trace := t' @ ?evs \<rparr>)" for t'
      proof -
        have "(s\<lparr> trace := t' \<rparr>)\<lparr> heap := (heap (s\<lparr> trace := t' \<rparr>))(a := rest), world := w',
           trace := trace (s\<lparr> trace := t' \<rparr>) @ ?evs \<rparr> = s2\<lparr> trace := t' @ ?evs \<rparr>"
          unfolding s2_def by (cases s) simp
        then show ?thesis using processLoop_throw[OF c[of t'] o[of t', unfolded Some], of k] by simp
      qed
      show ?thesis unfolding step A by simp
    qed
  qed
qed

lemma processLoop_shape:
  "loop_shape k (map handle (heap s a)) (trace (processLoop k a (s\<lparr> trace := [] \<rparr>)))"
proof (induction k a s rule: processLoop.induct)
  case (1 k a s)
  show ?case
  proof (cases "heap s a")
    case Nil
    then have n: "heap (s\<lparr> trace := [] \<rparr>) a = []" by simp
    show ?thesis unfolding processLoop_Nil[OF n] using Nil by simp
  next
    case (Cons e rest)
    then have c: "heap (s\<lparr> trace := [] \<rparr>) a = e # rest" by simp
    obtain w' r where op: "operation e (world s) = (w', r)" by (cases "operation e (world s)")
    then have o: "operation e (world (s\<lparr> trace := [] \<rparr>)) = (w', r)" by simp
    show ?thesis
    proof (cases r)
      case None
      show ?thesis unfolding processLoop_susp[OF c o[unfolded None]] using Cons by simp
    next
      case (Some err)
      let ?evs = "[Invoked k (handle e) (Some err), Rejected k (handle e) err]"
      let ?s' = "s\<lparr> heap := (heap s)(a := rest), world := w',
                trace := trace s @ [Invoked k (handle e) (Some err)] \<rparr>
                \<lparr>trace := trace (s\<lparr> heap := (heap s)(a := rest), world := w',
                trace := trace s @ [Invoked k (handle e) (Some err)] \<rparr>) @ [Rejected k (handle e) err]\<rparr>"
      define s2 where "s2 = s\<lparr> heap := (heap s)(a := rest), world := w' \<rparr>"
      have inv: "invoke k a e rest s = (Some err, s\<lparr> heap := (heap s)(a := rest), world := w',
                trace := trace s @ [Invoked k (handle e) (Some err)] \<rparr>)"
        using op Some by (simp add: invoke_def)
      have upd: "?s'\<lparr>trace := []\<rparr> = s2\<lparr> trace := [] \<rparr>" "heap ?s' a = rest"
        unfolding s2_def by (cases s; simp)+
      have IH: "loop_shape k (map handle rest) (trace (processLoop k a (s2\<lparr> trace := [] \<rparr>)))"
        using "1.IH"[OF Cons inv[symmetric] refl] unfolding upd .
      have "(s\<lparr> trace := [] \<rparr>)\<lparr> heap := (heap (s\<lparr> trace := [] \<rparr>))(a := rest), world := w',
           trace := trace (s\<lparr> trace := [] \<rparr>) @ ?evs \<rparr> = s2\<lparr> trace := ?evs \<rparr>"
        unfolding s2_def by (cases s) simp
      then have "processLoop k a (s\<lparr> trace := [] \<rparr>) = processLoop k a (s2\<lparr> trace := ?evs \<rparr>)"
        using processLoop_throw[OF c o[unfolded Some], of k] by simp
      then show ?thesis using IH Cons by (simp add: processLoop_trace[where s = s2 and t = ?evs])
    qed
  qed
qed

lemma resume_state_ginv:
  assumes g: "ginv None s" and f: "f \<in> set (workers s)"
    and ev: "ev = Resolved (tenantId f) (current f) v \<or> ev = Rejected (tenantId f) (current f) err"
  shows "ginv (Some (tenantId f, queue f)) (s\<lparr> workers := remove1 f (workers s), trace := trace s @ [ev] \<rparr>)"
proof -
  note G = ginvD[OF g]
  let ?s' = "s\<lparr> workers := remove1 f (workers s), trace := trace s @ [ev] \<rparr>"
  show ?thesis unfolding ginv_def
  proof (intro conjI)
    show "struct_inv (Some (tenantId f, queue f)) ?s'"
      by (rule struct_resume[OF G(1) f]) simp_all
    show "acct_inv ?s'"
      using ev by (intro acct_resume[OF G(1,2) f, where ev="ev"]) auto
    show "trace_inv ?s'"
      by (rule trace_resume[OF G(1,3) f ev]) simp_all
  qed
qed

text \<open>
  C4. After any sequence of tasks, let the operation of the running entry \<open>h\<close> of key
  \<open>k\<close> fail with \<open>e\<close>. The worker rejects the promise of \<open>h\<close> and goes on exactly as it
  would after a success with any value \<open>v\<close>: the two traces differ in that one
  observation only, and the two states are otherwise equal. What follows the settlement is
  the loop over the waiting entries, in their order: each is called; one that throws when
  called is rejected and the next is called; the worker stops only at an operation it has
  to await, or leaves when no entry is left. Every other key keeps its registration, its
  flag, its worker, its waiting entries and its part of the trace.
\<close>

theorem failure_is_local:
  fixes ts :: "('k, 'w, 'e, 'v) task list"
  shows "h \<in> set (inflight_of k (run ts (init w))) \<longrightarrow>
     (\<exists>evs. trace (resume h (Inl e) (run ts (init w))) = trace (run ts (init w)) @ Rejected k h e # evs
          \<and> trace (resume h (Inr v) (run ts (init w))) = trace (run ts (init w)) @ Resolved k h v # evs
          \<and> (resume h (Inl e) (run ts (init w)))\<lparr> trace := [] \<rparr>
              = (resume h (Inr v) (run ts (init w)))\<lparr> trace := [] \<rparr>
          \<and> loop_shape k (backlog_of k (run ts (init w))) evs)
     \<and> (\<forall>k'. k' \<noteq> k \<longrightarrow> same_for k' (run ts (init w)) (resume h (Inl e) (run ts (init w))))"
proof
  let ?s = "run ts (init w) :: ('k, 'w, 'e, 'v) qstate"
  assume infl: "h \<in> set (inflight_of k ?s)"
  note g = reachable_ginv[of ts w]
  note G = ginvD[OF g]
  obtain f where f: "find (\<lambda>f. current f = h) (workers ?s) = Some f" "tenantId f = k"
    "f \<in> set (workers ?s)"
    using inflight_find[OF G(1,2) infl] by blast
  have cur: "current f = h" using find_SomeD[OF f(1)] by simp
  note W = worker_facts[OF G(1) f(3)]
  define s1 where "s1 = ?s\<lparr> workers := remove1 f (workers ?s) \<rparr>"
  define Y where "Y = processLoop k (queue f) (s1\<lparr> trace := [] \<rparr>)"
  have res: "resume h out ?s = Y\<lparr> trace := (trace ?s @
      [case out of Inl e \<Rightarrow> Rejected k h e | Inr v \<Rightarrow> Resolved k h v]) @ trace Y \<rparr>" for out
  proof -
    have "?s\<lparr> workers := remove1 f (workers ?s),
        trace := trace ?s @ [case out of Inl e \<Rightarrow> Rejected k h e | Inr v \<Rightarrow> Resolved k h v] \<rparr>
      = s1\<lparr> trace := trace ?s @ [case out of Inl e \<Rightarrow> Rejected k h e | Inr v \<Rightarrow> Resolved k h v] \<rparr>"
      unfolding s1_def by simp
    then have "resume h out ?s = processLoop k (queue f)
        (s1\<lparr> trace := trace ?s @ [case out of Inl e \<Rightarrow> Rejected k h e | Inr v \<Rightarrow> Resolved k h v] \<rparr>)"
      unfolding resume_Some[OF f(1)] f(2) by simp
    also have "\<dots> = Y\<lparr> trace := (trace ?s @
      [case out of Inl e \<Rightarrow> Rejected k h e | Inr v \<Rightarrow> Resolved k h v]) @ trace Y \<rparr>"
      unfolding Y_def by (rule processLoop_trace)
    finally show ?thesis .
  qed
  have bl: "backlog_of k ?s = map handle (heap s1 (queue f))"
    using W(2) f(2) by (simp add: backlog_of_def s1_def)
  have shape: "loop_shape k (backlog_of k ?s) (trace Y)"
    unfolding bl Y_def by (rule processLoop_shape)
  have first: "\<exists>evs. trace (resume h (Inl e) ?s) = trace ?s @ Rejected k h e # evs
          \<and> trace (resume h (Inr v) ?s) = trace ?s @ Resolved k h v # evs
          \<and> (resume h (Inl e) ?s)\<lparr> trace := [] \<rparr> = (resume h (Inr v) ?s)\<lparr> trace := [] \<rparr>
          \<and> loop_shape k (backlog_of k ?s) evs"
    using shape by (intro exI[of _ "trace Y"]) (simp add: res)
  have second: "same_for k' ?s (resume h (Inl e) ?s)" if ne: "k' \<noteq> k" for k'
  proof -
    let ?s' = "?s\<lparr> workers := remove1 f (workers ?s), trace := trace ?s @ [Rejected k h e] \<rparr>"
    have g': "ginv (Some (k, queue f)) ?s'"
      using resume_state_ginv[OF g f(3), of "Rejected k h e" undefined e] f(2) cur by simp
    have 1: "same_for k' ?s ?s'"
      using ne filter_key_remove1[OF struct_invD(5)[OF G(1)] f(3), of k'] f(2)
      by (auto simp: same_for_def split: option.splits)
    have 2: "same_for k' ?s' (processLoop k (queue f) ?s')"
      using processLoop_frame[OF g' ne] .
    show ?thesis using same_for_trans[OF 1 2] unfolding resume_Some[OF f(1)] f(2) by simp
  qed
  show "(\<exists>evs. trace (resume h (Inl e) ?s) = trace ?s @ Rejected k h e # evs
          \<and> trace (resume h (Inr v) ?s) = trace ?s @ Resolved k h v # evs
          \<and> (resume h (Inl e) ?s)\<lparr> trace := [] \<rparr> = (resume h (Inr v) ?s)\<lparr> trace := [] \<rparr>
          \<and> loop_shape k (backlog_of k ?s) evs)
     \<and> (\<forall>k'. k' \<noteq> k \<longrightarrow> same_for k' ?s (resume h (Inl e) ?s))"
    using first second by blast
qed

theorem failure_is_local_witness:
  "0 \<in> set (inflight_of ''a'' (run [Enqueue ''a'' returning, Enqueue ''a'' throwing,
        Enqueue ''a'' returning, Enqueue ''b'' returning] (init 0)))
   \<and> trace (resume 0 (Inl ''x'') (run [Enqueue ''a'' returning, Enqueue ''a'' throwing,
        Enqueue ''a'' returning, Enqueue ''b'' returning] (init 0)) :: (string, nat, string, int) qstate)
      = trace (run [Enqueue ''a'' returning, Enqueue ''a'' throwing,
        Enqueue ''a'' returning, Enqueue ''b'' returning] (init 0))
        @ [Rejected ''a'' 0 ''x'', Invoked ''a'' 1 (Some ''boom''), Rejected ''a'' 1 ''boom'',
           Invoked ''a'' 2 None]
   \<and> same_for ''b'' (run [Enqueue ''a'' returning, Enqueue ''a'' throwing,
        Enqueue ''a'' returning, Enqueue ''b'' returning] (init 0))
      (resume 0 (Inl ''x'') (run [Enqueue ''a'' returning, Enqueue ''a'' throwing,
        Enqueue ''a'' returning, Enqueue ''b'' returning] (init 0)) :: (string, nat, string, int) qstate)"
  using failure_is_local[where h = 0 and k = "''a''" and w = 0 and e = "''x''" and v = "7::int"
      and ts = "[Enqueue ''a'' returning, Enqueue ''a'' throwing, Enqueue ''a'' returning, Enqueue ''b'' returning]"]
  by (simp add: run_eval same_for_def)

lemma started_ginv:
  assumes g: "ginv None s" and idle: "queues s k = None"
  shows "ginv (Some (k, next_addr s)) (started k opn s)"
proof -
  note G = ginvD[OF g]
  show ?thesis unfolding ginv_def started_def
    by (intro conjI struct_start[OF G(1) idle]
          acct_start[OF G(1,2) idle, where e="\<lparr> operation = opn, handle = next_handle s \<rparr>"]
          trace_start[OF G(1,2,3) idle]) simp_all
qed

lemma enqueue_started:
  assumes g: "ginv None s" and idle: "queues s k = None"
  shows "enqueue k opn s = (Inr (next_handle s), processLoop k (next_addr s) (started k opn s))"
  using enqueue_idle[OF idle idle_facts(3)[OF ginvD(1)[OF g] idle], of opn] by (simp add: started_def)

lemma enqueue_frame:
  assumes g: "ginv None s" and ne: "k' \<noteq> k"
  shows "same_for k' s (snd (enqueue k opn s))"
proof (cases "queues s k")
  case None
  note F = idle_facts[OF ginvD(1)[OF g] None]
  have 1: "same_for k' s (started k opn s)"
    using ne F(4)[of k'] by (auto simp: same_for_def started_def split: option.splits)
  have 2: "same_for k' (started k opn s) (processLoop k (next_addr s) (started k opn s))"
    by (rule processLoop_frame[OF started_ginv[OF g None] ne])
  show ?thesis unfolding enqueue_started[OF g None] snd_conv by (rule same_for_trans[OF 1 2])
next
  case (Some a)
  note D = struct_invD[OF ginvD(1)[OF g]]
  have p: "k \<in> processing s" using registered_processing[OF ginvD(1)[OF g], of k] Some by simp
  have "queues s k' \<noteq> Some a"
    using D(1)[of k' a] D(1)[of k a] D(4)[of k a k'] Some ne by auto
  then show ?thesis unfolding enqueue_busy[OF Some p] snd_conv
    using ne by (auto simp: same_for_def split: option.splits)
qed

lemma started_returns:
  assumes "opn (world s) = (w', None)"
  shows "processLoop k (next_addr s) (started k opn s) =
     (started k opn s)\<lparr> heap := (heap (started k opn s))(next_addr s := []), world := w',
        trace := trace s @ [Submitted k (next_handle s), WorkerStart k, Invoked k (next_handle s) None],
        workers := workers s @ [\<lparr> tenantId = k, queue = next_addr s, current = next_handle s \<rparr>] \<rparr>"
proof -
  have h: "heap (started k opn s) (next_addr s) = [\<lparr> operation = opn, handle = next_handle s \<rparr>]"
    by (simp add: started_def)
  have o: "operation \<lparr> operation = opn, handle = next_handle s \<rparr> (world (started k opn s)) = (w', None)"
    using assms by (simp add: started_def)
  show ?thesis unfolding processLoop_susp[OF h o] by (simp add: started_def)
qed

lemma started_throws:
  assumes "opn (world s) = (w', Some err)"
  shows "processLoop k (next_addr s) (started k opn s) =
     (started k opn s)\<lparr> heap := (heap (started k opn s))(next_addr s := []), world := w',
        trace := trace s @ [Submitted k (next_handle s), WorkerStart k,
                 Invoked k (next_handle s) (Some err), Rejected k (next_handle s) err, WorkerExit k],
        processing := processing s - {k},
        queues := (queues s)(k := None) \<rparr>"
proof -
  have h: "heap (started k opn s) (next_addr s) = [\<lparr> operation = opn, handle = next_handle s \<rparr>]"
    by (simp add: started_def)
  have o: "operation \<lparr> operation = opn, handle = next_handle s \<rparr> (world (started k opn s)) = (w', Some err)"
    using assms by (simp add: started_def)
  show ?thesis unfolding processLoop_throw[OF h o]
    by (subst processLoop_Nil) (simp_all add: started_def)
qed

lemma enqueue_result: "fst (enqueue k opn s) = Inr (next_handle s)"
  by (cases "queues s k") (simp_all add: enqueue_def Let_def)

lemma processQueue_trace_prefix:
  assumes "trace s = t @ [x]"
  shows "\<exists>evs. trace (processQueue k s) = t @ x # evs"
proof (cases "queues s k")
  case None then show ?thesis using assms by (simp add: processQueue_def)
next
  case (Some a)
  show ?thesis
    using processLoop_trace_prefix[of k a "s\<lparr>processing := insert k (processing s),
      trace := trace s @ [WorkerStart k]\<rparr>"] Some assms
    by (auto simp: processQueue_def)
qed

lemma enqueue_submits:
  "\<exists>evs. trace (snd (enqueue k opn s)) = trace s @ Submitted k (next_handle s) # evs"
  by (cases "queues s k"; cases "k \<in> processing s")
     (auto simp: enqueue_def Let_def intro!: processQueue_trace_prefix)

text \<open>
  C7, as the code has it. \<open>enqueue\<close> never fails, whatever the key: it checks nothing,
  and \<open>null\<close> and \<open>undefined\<close> are keys of a \<open>Map\<close> like any other value. It returns the
  promise it created and records the entry. After any sequence of tasks every rejection of
  such a promise carries an error of the operation itself, one with which its awaited
  promise was rejected or one it threw when called, and every fulfilment a value of the
  operation: the queue has no error of its own.
\<close>

theorem enqueue_never_fails:
  fixes ts :: "('k, 'w, 'e, 'v) task list"
  shows "fst (enqueue k opn s) = Inr (next_handle s)
    \<and> (\<exists>evs. trace (snd (enqueue k opn s)) = trace s @ Submitted k (next_handle s) # evs)
    \<and> (Rejected k h e \<in> set (trace (run ts (init w))) \<longrightarrow>
         Settle h (Inl e) \<in> set ts \<or> Invoked k h (Some e) \<in> set (trace (run ts (init w))))
    \<and> (Resolved k h v \<in> set (trace (run ts (init w))) \<longrightarrow> Settle h (Inr v) \<in> set ts)"
proof -
  have J: "justified ts (trace (run ts (init w)))" by (rule run_justified)
  have 3: "Settle h (Inl e) \<in> set ts \<or> Invoked k h (Some e) \<in> set (trace (run ts (init w)))"
    if "Rejected k h e \<in> set (trace (run ts (init w)))"
    using J that unfolding justified_def by blast
  have 4: "Settle h (Inr v) \<in> set ts" if "Resolved k h v \<in> set (trace (run ts (init w)))"
    using J that unfolding justified_def by blast
  show ?thesis using enqueue_result[of k opn s] enqueue_submits[of k opn s] 3 4 by blast
qed

theorem enqueue_never_fails_witness:
  "fst (enqueue JUndefined returning (init 0 :: (js_key, nat, string, int) qstate)) = Inr 0
   \<and> Rejected JNull 0 ''gone'' \<in> set (trace (run [Enqueue JNull returning, Settle 0 (Inl ''gone'')]
        (init 0) :: (js_key, nat, string, int) qstate))
   \<and> Settle 0 (Inl ''gone'') \<in> set [Enqueue JNull returning, Settle 0 (Inl ''gone'') :: (js_key, nat, string, int) task]"
  using enqueue_never_fails[where k = JNull and h = 0 and e = "''gone''" and w = 0
      and ts = "[Enqueue JNull returning, Settle 0 (Inl ''gone'') :: (js_key, nat, string, int) task]"
      and opn = returning and s = "init 0 :: (js_key, nat, string, int) qstate"]
    enqueue_never_fails[where k = JUndefined and opn = returning and s = "init 0 :: (js_key, nat, string, int) qstate"
      and ts = "[] :: (js_key, nat, string, int) task list"]
  by (simp add: run_eval)

text \<open>
  C7 as stated fails: a submission under the key \<open>null\<close> does not fail. It is accepted,
  its operation is called at once, and its promise is fulfilled with the operation's value.
\<close>

theorem null_key_accepted:
  "fst (enqueue JNull returning (init 0 :: (js_key, nat, string, int) qstate)) = Inr 0
   \<and> trace (run [Enqueue JNull returning, Settle 0 (Inr 7)] (init 0) :: (js_key, nat, string, int) qstate)
       = [Submitted JNull 0, WorkerStart JNull, Invoked JNull 0 None, Resolved JNull 0 7, WorkerExit JNull]"
  by (simp add: run_eval)

lemma resume_trace_prefix: "\<exists>evs. trace (resume h out s) = trace s @ evs"
proof (cases "find (\<lambda>f. current f = h) (workers s)")
  case None then show ?thesis by (simp add: resume_None)
next
  case (Some f)
  show ?thesis unfolding resume_Some[OF Some]
    using processLoop_trace_prefix[of "tenantId f" "queue f" "s\<lparr>workers := remove1 f (workers s),
       trace := trace s @ [case out of Inl e \<Rightarrow> Rejected (tenantId f) h e | Inr v \<Rightarrow> Resolved (tenantId f) h v]\<rparr>"]
    by auto
qed

lemma step_trace_prefix: "\<exists>evs. trace (step t s) = trace s @ evs"
proof (cases t)
  case (Enqueue k opn)
  then show ?thesis using enqueue_submits[of k opn s] by auto
next
  case (Settle h out)
  then show ?thesis using resume_trace_prefix[of h out s] by simp
qed

lemma run_trace_prefix: "\<exists>evs. trace (run ts s) = trace s @ evs"
proof (induction ts rule: rev_induct)
  case Nil show ?case by (simp add: run_def)
next
  case (snoc t ts)
  then obtain evs where "trace (run ts s) = trace s @ evs" by blast
  moreover obtain evs' where "trace (step t (run ts s)) = trace (run ts s) @ evs'"
    using step_trace_prefix by blast
  ultimately show ?case by (simp add: run_snoc)
qed

lemma run_append: "run (ts @ us) s = run us (run ts s)"
  by (simp add: run_def)

lemma init_fields [simp]:
  "queues (init w) = Map.empty" "processing (init w) = {}" "heap (init w) = (\<lambda>_. [])"
  "next_addr (init w) = 0" "next_handle (init w) = 0" "workers (init w) = []"
  "world (init w) = w" "trace (init w) = []"
  by (simp_all add: init_def)

text \<open>
  C6. After any sequence of tasks, let key \<open>k\<close> have no entry in the \<open>queues\<close> map. Then
  nothing of its earlier use is left: the key is not marked, no worker holds it, and every
  promise created for it so far has been settled. A submission for \<open>k\<close> now does what the
  same submission does on a queue that was never used, in the same world: the same
  promise up to its number, the same observations up to that number, the same effect on
  the world, and the same registration, flag, running operation and waiting entries of
  \<open>k\<close> afterwards. Whatever tasks follow, the promises of \<open>k\<close> settled are those of the
  earlier batch followed by later ones, all in the order of submission.
\<close>

theorem reuse_like_first:
  fixes ts us :: "('k, 'w, 'e, 'v) task list"
  shows "queues (run ts (init w)) k = None \<longrightarrow>
     k \<notin> processing (run ts (init w)) \<and> inflight_of k (run ts (init w)) = []
     \<and> submitted_of k (trace (run ts (init w))) = settled_of k (trace (run ts (init w)))
     \<and> fst (enqueue k opn (run ts (init w))) = Inr (next_handle (run ts (init w)))
     \<and> fst (enqueue k opn (init (world (run ts (init w))) :: ('k, 'w, 'e, 'v) qstate)) = Inr 0
     \<and> trace (snd (enqueue k opn (run ts (init w)))) =
          trace (run ts (init w)) @
          map (renumber (next_handle (run ts (init w))))
            (trace (snd (enqueue k opn (init (world (run ts (init w))) :: ('k, 'w, 'e, 'v) qstate))))
     \<and> world (snd (enqueue k opn (run ts (init w)))) =
          world (snd (enqueue k opn (init (world (run ts (init w))) :: ('k, 'w, 'e, 'v) qstate)))
     \<and> inflight_of k (snd (enqueue k opn (run ts (init w)))) =
          map ((+) (next_handle (run ts (init w))))
            (inflight_of k (snd (enqueue k opn (init (world (run ts (init w))) :: ('k, 'w, 'e, 'v) qstate))))
     \<and> backlog_of k (snd (enqueue k opn (run ts (init w)))) =
          backlog_of k (snd (enqueue k opn (init (world (run ts (init w))) :: ('k, 'w, 'e, 'v) qstate)))
     \<and> (k \<in> processing (snd (enqueue k opn (run ts (init w))))) =
          (k \<in> processing (snd (enqueue k opn (init (world (run ts (init w))) :: ('k, 'w, 'e, 'v) qstate))))
     \<and> (queues (snd (enqueue k opn (run ts (init w)))) k = None) =
          (queues (snd (enqueue k opn (init (world (run ts (init w))) :: ('k, 'w, 'e, 'v) qstate))) k = None)
     \<and> (\<exists>more. settled_of k (trace (run us (run ts (init w)))) =
                   submitted_of k (trace (run ts (init w))) @ more
              \<and> submitted_of k (trace (run us (run ts (init w)))) =
                   submitted_of k (trace (run ts (init w))) @ more
                     @ inflight_of k (run us (run ts (init w)))
                     @ backlog_of k (run us (run ts (init w))))"
proof
  let ?s = "run ts (init w) :: ('k, 'w, 'e, 'v) qstate"
  let ?i = "init (world ?s) :: ('k, 'w, 'e, 'v) qstate"
  assume idle: "queues ?s k = None"
  note g = reachable_ginv[of ts w]
  note G = ginvD[OF g]
  note F = idle_facts[OF G(1) idle]
  note A = acct_invD[OF G(2)]
  have idle0: "queues ?i k = None" by simp
  have old: "submitted_of k (trace ?s) = settled_of k (trace ?s)"
    using A(1)[of k] F(1,2) by simp
  obtain w' r where op: "opn (world ?s) = (w', r)" by (cases "opn (world ?s)")
  then have op0: "opn (world ?i) = (w', r)" by simp
  note E = enqueue_started[OF g idle, of opn]
  note E0 = enqueue_started[OF init_ginv idle0, of opn]
  have one: "trace (snd (enqueue k opn ?s)) =
          trace ?s @ map (renumber (next_handle ?s)) (trace (snd (enqueue k opn ?i)))
     \<and> world (snd (enqueue k opn ?s)) = world (snd (enqueue k opn ?i))
     \<and> inflight_of k (snd (enqueue k opn ?s)) =
          map ((+) (next_handle ?s)) (inflight_of k (snd (enqueue k opn ?i)))
     \<and> backlog_of k (snd (enqueue k opn ?s)) = backlog_of k (snd (enqueue k opn ?i))
     \<and> (k \<in> processing (snd (enqueue k opn ?s))) = (k \<in> processing (snd (enqueue k opn ?i)))
     \<and> (queues (snd (enqueue k opn ?s)) k = None) = (queues (snd (enqueue k opn ?i)) k = None)"
  proof (cases r)
    case None
    show ?thesis unfolding E E0 snd_conv
      started_returns[where opn = opn and s = ?s and k = k, OF op[unfolded None]]
      started_returns[where opn = opn and s = ?i and k = k, OF op0[unfolded None]]
      using F(1) by (simp add: started_def inflight_of_def backlog_of_def)
  next
    case (Some err)
    show ?thesis unfolding E E0 snd_conv
      started_throws[where opn = opn and s = ?s and k = k, OF op[unfolded Some]]
      started_throws[where opn = opn and s = ?i and k = k, OF op0[unfolded Some]]
      using F(1) by (simp add: started_def inflight_of_def backlog_of_def)
  qed
  have later: "\<exists>more. settled_of k (trace (run us ?s)) = submitted_of k (trace ?s) @ more
              \<and> submitted_of k (trace (run us ?s)) =
                   submitted_of k (trace ?s) @ more @ inflight_of k (run us ?s) @ backlog_of k (run us ?s)"
  proof -
    obtain evs where evs: "trace (run us ?s) = trace ?s @ evs" using run_trace_prefix by blast
    have "acct_inv (run us ?s)" using ginvD(2)[OF run_ginv[OF g, of us]] .
    note A2 = acct_invD(1)[OF this, of k]
    have "settled_of k (trace (run us ?s)) = submitted_of k (trace ?s) @ settled_of k evs"
      unfolding evs old by simp
    then show ?thesis using A2 by (intro exI[of _ "settled_of k evs"]) simp
  qed
  show "k \<notin> processing ?s \<and> inflight_of k ?s = []
     \<and> submitted_of k (trace ?s) = settled_of k (trace ?s)
     \<and> fst (enqueue k opn ?s) = Inr (next_handle ?s)
     \<and> fst (enqueue k opn ?i) = Inr 0
     \<and> trace (snd (enqueue k opn ?s)) =
          trace ?s @ map (renumber (next_handle ?s)) (trace (snd (enqueue k opn ?i)))
     \<and> world (snd (enqueue k opn ?s)) = world (snd (enqueue k opn ?i))
     \<and> inflight_of k (snd (enqueue k opn ?s)) =
          map ((+) (next_handle ?s)) (inflight_of k (snd (enqueue k opn ?i)))
     \<and> backlog_of k (snd (enqueue k opn ?s)) = backlog_of k (snd (enqueue k opn ?i))
     \<and> (k \<in> processing (snd (enqueue k opn ?s))) = (k \<in> processing (snd (enqueue k opn ?i)))
     \<and> (queues (snd (enqueue k opn ?s)) k = None) = (queues (snd (enqueue k opn ?i)) k = None)
     \<and> (\<exists>more. settled_of k (trace (run us ?s)) = submitted_of k (trace ?s) @ more
              \<and> submitted_of k (trace (run us ?s)) =
                   submitted_of k (trace ?s) @ more @ inflight_of k (run us ?s) @ backlog_of k (run us ?s))"
    using F(1,3) old enqueue_result[of k opn ?s] enqueue_result[of k opn ?i] one later by simp
qed

theorem reuse_like_first_witness:
  "queues (run [Enqueue ''t'' returning, Settle 0 (Inr 1), Enqueue ''t'' returning, Settle 1 (Inr (2::int))]
      (init 0)) ''t'' = None
   \<and> trace (snd (enqueue ''t'' returning
        (run [Enqueue ''t'' returning, Settle 0 (Inr 1), Enqueue ''t'' returning, Settle 1 (Inr (2::int))] (init 0))))
      = trace (run [Enqueue ''t'' returning, Settle 0 (Inr 1), Enqueue ''t'' returning, Settle 1 (Inr (2::int))] (init 0))
        @ [Submitted ''t'' 2, WorkerStart ''t'', Invoked ''t'' 2 None]
   \<and> settled_of ''t'' (trace (run [Enqueue ''t'' returning, Settle 2 (Inr 3), Enqueue ''t'' returning, Settle 3 (Inr 4)]
        (run [Enqueue ''t'' returning, Settle 0 (Inr 1), Enqueue ''t'' returning, Settle 1 (Inr (2::int))] (init 0))))
      = [0, 1, 2, 3]"
  using reuse_like_first[where k = "''t''" and w = 0 and opn = returning
      and ts = "[Enqueue ''t'' returning, Settle 0 (Inr 1), Enqueue ''t'' returning, Settle 1 (Inr (2::int))]"
      and us = "[Enqueue ''t'' returning, Settle 2 (Inr 3), Enqueue ''t'' returning, Settle 3 (Inr 4)]"]
  by (simp add: run_eval)

lemma same_for_inflight: "same_for k s s' \<Longrightarrow> inflight_of k s' = inflight_of k s"
  by (simp add: same_for_def inflight_of_def)

lemma run_Cons: "run (t # ts) s = run ts (step t s)"
  by (simp add: run_def)

lemma burst_all_running:
  assumes "ginv None s" and "distinct ks" and "\<forall>k \<in> set ks. queues s k = None"
    and ret: "\<forall>w. snd (opn w) = None"
  shows "(\<forall>k \<in> set ks. inflight_of k (run (map (\<lambda>k. Enqueue k opn) ks) s) \<noteq> [])
     \<and> (\<forall>k. k \<notin> set ks \<longrightarrow> same_for k s (run (map (\<lambda>k. Enqueue k opn) ks) s))"
  using assms(1-3)
proof (induction ks arbitrary: s)
  case Nil
  show ?case by (simp add: run_def same_for_refl)
next
  case (Cons k ks)
  let ?s1 = "snd (enqueue k opn s)"
  let ?s' = "run (map (\<lambda>k. Enqueue k opn) ks) ?s1"
  have idle: "queues s k = None" using Cons.prems(3) by simp
  have g1: "ginv None ?s1" by (rule enqueue_ginv[OF Cons.prems(1)])
  obtain w' where op: "opn (world s) = (w', None)"
    using ret by (cases "opn (world s)") (metis snd_conv)
  have nk: "k \<notin> tenantId ` set (workers s)"
    using idle_facts(1)[OF ginvD(1)[OF Cons.prems(1)] idle]
    by (auto simp: inflight_of_def filter_empty_conv)
  have run1: "inflight_of k ?s1 = [next_handle s]"
    unfolding enqueue_started[OF Cons.prems(1) idle] snd_conv
      started_returns[where opn = opn and s = s and k = k, OF op]
    using nk by (auto simp: inflight_of_def started_def filter_empty_conv)
  have fr: "\<And>k'. k' \<noteq> k \<Longrightarrow> same_for k' s ?s1"
    by (rule enqueue_frame[OF Cons.prems(1)])
  have idle1: "\<forall>k' \<in> set ks. queues ?s1 k' = None"
  proof
    fix k' assume k': "k' \<in> set ks"
    then have "k' \<noteq> k" using Cons.prems(2) by auto
    then show "queues ?s1 k' = None" using fr[of k'] Cons.prems(3) k' by (simp add: same_for_def)
  qed
  have IH: "(\<forall>k' \<in> set ks. inflight_of k' ?s' \<noteq> []) \<and> (\<forall>k'. k' \<notin> set ks \<longrightarrow> same_for k' ?s1 ?s')"
    using Cons.IH[OF g1 _ idle1] Cons.prems(2) by simp
  have "inflight_of k ?s' \<noteq> []"
    using IH Cons.prems(2) same_for_inflight[of k ?s1 ?s'] run1 by simp
  moreover have "same_for k' s ?s'" if "k' \<notin> set (k # ks)" for k'
    using same_for_trans[OF fr[of k'], of ?s'] IH that by simp
  ultimately show ?case using IH by (simp add: run_Cons)
qed

text \<open>
  C9. After any sequence of tasks, whatever is running or waiting for a key \<open>A\<close>, a key
  \<open>B\<close> other than \<open>A\<close> is served as if \<open>A\<close> were not there. The operation of a submission
  for \<open>B\<close>, when \<open>B\<close> is idle, is called within that very \<open>enqueue\<close>. A submission for
  \<open>A\<close>, and the completion of the running operation of \<open>A\<close>, leave the registration, flag,
  worker, waiting entries and trace of \<open>B\<close> as they were. The completion of the running
  operation of \<open>B\<close> is delivered in the task in which it completes. And after one
  submission for each of several idle keys, of an operation that returns a promise, all of
  these operations are running at the same moment, one worker each. Durations are not part
  of the model: that all are running at once is what keeps the elapsed time of the three
  operations of the example at that of one.
\<close>

theorem keys_independent:
  fixes ts :: "('k, 'w, 'e, 'v) task list"
  shows "B \<noteq> A \<longrightarrow>
     (queues (run ts (init w)) B = None \<longrightarrow>
        invoked_of B (trace (snd (enqueue B opn (run ts (init w))))) =
          invoked_of B (trace (run ts (init w))) @ [next_handle (run ts (init w))])
     \<and> same_for B (run ts (init w)) (snd (enqueue A opn (run ts (init w))))
     \<and> (h \<in> set (inflight_of A (run ts (init w))) \<longrightarrow>
          same_for B (run ts (init w)) (resume h out (run ts (init w))))
     \<and> (h \<in> set (inflight_of B (run ts (init w))) \<longrightarrow>
          h \<in> set (settled_of B (trace (resume h out (run ts (init w))))))
     \<and> (distinct ks \<and> (\<forall>k \<in> set ks. queues (run ts (init w)) k = None) \<and> (\<forall>x. snd (opn x) = None) \<longrightarrow>
          (\<forall>k \<in> set ks. inflight_of k (run (map (\<lambda>k. Enqueue k opn) ks) (run ts (init w))) \<noteq> []))"
proof
  let ?s = "run ts (init w) :: ('k, 'w, 'e, 'v) qstate"
  assume ne: "B \<noteq> A"
  note g = reachable_ginv[of ts w]
  note G = ginvD[OF g]
  have 1: "invoked_of B (trace (snd (enqueue B opn ?s))) = invoked_of B (trace ?s) @ [next_handle ?s]"
    if idle: "queues ?s B = None"
  proof -
    obtain w' r where op: "opn (world ?s) = (w', r)" by (cases "opn (world ?s)")
    show ?thesis
    proof (cases r)
      case None
      show ?thesis unfolding enqueue_started[OF g idle] snd_conv
        started_returns[where opn = opn and s = ?s and k = B, OF op[unfolded None]] by simp
    next
      case (Some err)
      show ?thesis unfolding enqueue_started[OF g idle] snd_conv
        started_throws[where opn = opn and s = ?s and k = B, OF op[unfolded Some]] by simp
    qed
  qed
  have 2: "same_for B ?s (snd (enqueue A opn ?s))" by (rule enqueue_frame[OF g ne])
  have 3: "same_for B ?s (resume h out ?s)" if infl: "h \<in> set (inflight_of A ?s)"
  proof -
    obtain f where f: "find (\<lambda>f. current f = h) (workers ?s) = Some f" "tenantId f = A"
      "f \<in> set (workers ?s)"
      using inflight_find[OF G(1,2) infl] by blast
    have cur: "current f = h" using find_SomeD[OF f(1)] by simp
    let ?ev = "case out of Inl e \<Rightarrow> Rejected A h e | Inr v \<Rightarrow> Resolved A h v"
    let ?s' = "?s\<lparr> workers := remove1 f (workers ?s), trace := trace ?s @ [?ev] \<rparr>"
    have "?ev = Resolved (tenantId f) (current f) (projr out) \<or> ?ev = Rejected (tenantId f) (current f) (projl out)"
      using f(2) cur by (cases out) simp_all
    then have g': "ginv (Some (A, queue f)) ?s'"
      using resume_state_ginv[OF g f(3), of ?ev "projr out" "projl out"] f(2) by simp
    have a: "same_for B ?s ?s'"
      using ne filter_key_remove1[OF struct_invD(5)[OF G(1)] f(3), of B] f(2)
      by (cases out) (auto simp: same_for_def split: option.splits)
    have b: "same_for B ?s' (processLoop A (queue f) ?s')"
      using processLoop_frame[OF g' ne] .
    show ?thesis using same_for_trans[OF a b] unfolding resume_Some[OF f(1)] f(2) by simp
  qed
  have 4: "h \<in> set (settled_of B (trace (resume h out ?s)))" if infl: "h \<in> set (inflight_of B ?s)"
  proof -
    obtain f where f: "find (\<lambda>f. current f = h) (workers ?s) = Some f" "tenantId f = B"
      using inflight_find[OF G(1,2) infl] by blast
    let ?ev = "case out of Inl e \<Rightarrow> Rejected B h e | Inr v \<Rightarrow> Resolved B h v"
    obtain evs where "trace (resume h out ?s) = (trace ?s @ [?ev]) @ evs"
      unfolding resume_Some[OF f(1)] f(2)
      using processLoop_trace_prefix[of B "queue f" "?s\<lparr>workers := remove1 f (workers ?s),
        trace := trace ?s @ [?ev]\<rparr>"] by auto
    then show ?thesis by (cases out) simp_all
  qed
  have 5: "\<forall>k \<in> set ks. inflight_of k (run (map (\<lambda>k. Enqueue k opn) ks) ?s) \<noteq> []"
    if "distinct ks \<and> (\<forall>k \<in> set ks. queues ?s k = None) \<and> (\<forall>x. snd (opn x) = None)"
    using burst_all_running[OF g, of ks opn] that by blast
  show "(queues ?s B = None \<longrightarrow>
        invoked_of B (trace (snd (enqueue B opn ?s))) = invoked_of B (trace ?s) @ [next_handle ?s])
     \<and> same_for B ?s (snd (enqueue A opn ?s))
     \<and> (h \<in> set (inflight_of A ?s) \<longrightarrow> same_for B ?s (resume h out ?s))
     \<and> (h \<in> set (inflight_of B ?s) \<longrightarrow> h \<in> set (settled_of B (trace (resume h out ?s))))
     \<and> (distinct ks \<and> (\<forall>k \<in> set ks. queues ?s k = None) \<and> (\<forall>x. snd (opn x) = None) \<longrightarrow>
          (\<forall>k \<in> set ks. inflight_of k (run (map (\<lambda>k. Enqueue k opn) ks) ?s) \<noteq> []))"
    using 1 2 3 4 5 by blast
qed

theorem keys_independent_witness:
  "''B'' \<noteq> ''A''
   \<and> queues (run [Enqueue ''A'' returning, Enqueue ''A'' returning] (init 0 :: (string, nat, string, int) qstate)) ''B'' = None
   \<and> invoked_of ''B'' (trace (snd (enqueue ''B'' returning
         (run [Enqueue ''A'' returning, Enqueue ''A'' returning] (init 0 :: (string, nat, string, int) qstate))))) = [2]
   \<and> 0 \<in> set (inflight_of ''A'' (run [Enqueue ''A'' returning, Enqueue ''A'' returning] (init 0 :: (string, nat, string, int) qstate)))
   \<and> distinct [''t1'', ''t2'', ''t3'']
   \<and> inflight_of ''t1'' (run (map (\<lambda>k. Enqueue k returning) [''t1'', ''t2'', ''t3''])
         (run [Enqueue ''A'' returning, Enqueue ''A'' returning] (init 0 :: (string, nat, string, int) qstate))) = [2]
   \<and> inflight_of ''t2'' (run (map (\<lambda>k. Enqueue k returning) [''t1'', ''t2'', ''t3''])
         (run [Enqueue ''A'' returning, Enqueue ''A'' returning] (init 0 :: (string, nat, string, int) qstate))) = [3]
   \<and> inflight_of ''t3'' (run (map (\<lambda>k. Enqueue k returning) [''t1'', ''t2'', ''t3''])
         (run [Enqueue ''A'' returning, Enqueue ''A'' returning] (init 0 :: (string, nat, string, int) qstate))) = [4]"
  using keys_independent[where A = "''A''" and B = "''B''" and w = 0 and opn = returning and h = 0
      and ks = "[''t1'', ''t2'', ''t3'']" and out = "Inr (1::int)"
      and ts = "[Enqueue ''A'' returning, Enqueue ''A'' returning]"]
  by (simp add: run_eval)

lemma no_alias:
  assumes st: "struct_inv (Some (k, a)) s" and f: "f \<in> set (workers s)"
  shows "queue f \<noteq> a"
proof
  assume q: "queue f = a"
  note D = struct_invD[OF st]
  have 1: "owned (Some (k, a)) s (tenantId f) a" using f q by (auto simp: owned_def)
  have 2: "owned (Some (k, a)) s k a" by (simp add: owned_def)
  have "tenantId f = k" by (rule D(4)[OF 1 2])
  moreover have "k \<notin> tenantId ` set (workers s)" by (rule D(6)[OF refl])
  ultimately show False using f by blast
qed

lemma pending_cong:
  assumes "workers s' = workers s"
    and "\<And>f. f \<in> set (workers s) \<Longrightarrow> heap s' (queue f) = heap s (queue f)"
  shows "pending s' = pending s"
  unfolding pending_def using assms by (simp cong: map_cong)

lemma processLoop_pending:
  "ginv (Some (k, a)) s \<Longrightarrow> pending (processLoop k a s) \<le> pending s + length (heap s a)"
proof (induction k a s rule: processLoop.induct)
  case (1 k a s)
  note G = ginvD[OF "1.prems"(1)]
  note na = no_alias[OF G(1)]
  show ?case
  proof (cases "heap s a")
    case Nil
    have "pending (processLoop k a s) = pending s"
      unfolding processLoop_Nil[OF Nil] by (rule pending_cong) simp_all
    then show ?thesis by simp
  next
    case (Cons e rest)
    obtain w' r where op: "operation e (world s) = (w', r)" by (cases "operation e (world s)")
    show ?thesis
    proof (cases r)
      case None
      let ?s' = "s\<lparr> heap := (heap s)(a := rest), world := w',
        trace := trace s @ [Invoked k (handle e) None] \<rparr>"
      have "pending ?s' = pending s" using na by (intro pending_cong) simp_all
      moreover have "pending (processLoop k a s) = pending ?s' + Suc (length rest)"
        unfolding processLoop_susp[OF Cons op[unfolded None]] by (simp add: pending_def)
      ultimately show ?thesis using Cons by simp
    next
      case (Some err)
      let ?s' = "s\<lparr> heap := (heap s)(a := rest), world := w',
        trace := trace s @ [Invoked k (handle e) (Some err), Rejected k (handle e) err] \<rparr>"
      have inv: "invoke k a e rest s = (Some err, s\<lparr> heap := (heap s)(a := rest), world := w',
                trace := trace s @ [Invoked k (handle e) (Some err)] \<rparr>)"
        using op Some by (simp add: invoke_def)
      have 1: "pending ?s' = pending s" using na by (intro pending_cong) simp_all
      have 2: "pending (processLoop k a ?s') \<le> pending ?s' + length (heap ?s' a)"
        using "1.IH"[OF Cons inv[symmetric] refl] throw_ginv[OF "1.prems"(1) Cons] by simp
      show ?thesis unfolding processLoop_throw[OF Cons op[unfolded Some]]
        using 1 2 Cons by simp
    qed
  qed
qed

lemma resume_pending:
  assumes g: "ginv None s" and fd: "find (\<lambda>f. current f = h) (workers s) = Some f"
  shows "pending (resume h out s) < pending s"
proof -
  have f: "f \<in> set (workers s)" and h: "current f = h" using find_SomeD[OF fd] by simp_all
  let ?ev = "case out of Inl e \<Rightarrow> Rejected (tenantId f) h e | Inr v \<Rightarrow> Resolved (tenantId f) h v"
  let ?s' = "s\<lparr> workers := remove1 f (workers s), trace := trace s @ [?ev] \<rparr>"
  have ev: "?ev = Resolved (tenantId f) (current f) (projr out) \<or>
            ?ev = Rejected (tenantId f) (current f) (projl out)"
    by (cases out) (simp_all add: h)
  have gi: "ginv (Some (tenantId f, queue f)) ?s'"
    by (rule resume_state_ginv[OF g f ev])
  have "pending (processLoop (tenantId f) (queue f) ?s') \<le> pending ?s' + length (heap ?s' (queue f))"
    by (rule processLoop_pending[OF gi])
  moreover have "pending s = Suc (length (heap s (queue f))) + pending ?s'"
    unfolding pending_def using sum_list_map_remove1[OF f, of "\<lambda>f. Suc (length (heap s (queue f)))"]
    by simp
  ultimately show ?thesis unfolding resume_Some[OF fd] by simp
qed

lemma drain_exists:
  fixes s :: "('k, 'w, 'e, 'v) qstate" and outs :: "handle \<Rightarrow> 'e + 'v"
  assumes "ginv None s"
  shows "\<exists>us. (\<forall>t \<in> set us. \<exists>h. t = Settle h (outs h)) \<and> workers (run us s) = []"
  using assms
proof (induction "pending s" arbitrary: s rule: less_induct)
  case less
  show ?case
  proof (cases "workers s")
    case Nil
    have "(\<forall>t \<in> set []. \<exists>h. t = Settle h (outs h)) \<and> workers (run [] s) = []"
      using Nil by (simp add: run_def)
    then show ?thesis by (rule exI)
  next
    case (Cons f fs)
    let ?h = "current f"
    have fd: "find (\<lambda>g. current g = ?h) (workers s) = Some f" using Cons by simp
    have lt: "pending (resume ?h (outs ?h) s) < pending s" by (rule resume_pending[OF less.prems fd])
    have gi: "ginv None (resume ?h (outs ?h) s)" by (rule resume_ginv[OF less.prems])
    from less.hyps[OF lt gi] obtain us where
      us: "\<forall>t \<in> set us. \<exists>h. t = Settle h (outs h)" "workers (run us (resume ?h (outs ?h) s)) = []"
      by blast
    have "(\<forall>t \<in> set (Settle ?h (outs ?h) # us). \<exists>h. t = Settle h (outs h))
        \<and> workers (run (Settle ?h (outs ?h) # us) s) = []"
      using us by (auto simp: run_Cons)
    then show ?thesis by (rule exI)
  qed
qed

lemma idle_all_settled:
  assumes g: "ginv None s" and i: "inflight_of k s = []"
  shows "backlog_of k s = []" and "submitted_of k (trace s) = settled_of k (trace s)"
proof -
  note G = ginvD[OF g]
  note D = struct_invD[OF G(1)]
  have "queues s k = None"
  proof (cases "queues s k")
    case (Some a)
    then have "owned None s k a" using D(1)[of k a] by simp
    then have "inflight_of k s \<noteq> []" by (auto simp: inflight_nonempty owned_def)
    then show ?thesis using i by simp
  qed simp
  then show b: "backlog_of k s = []" by (simp add: backlog_of_def)
  show "submitted_of k (trace s) = settled_of k (trace s)"
    using acct_invD(1)[OF G(2), of k] i b by simp
qed

text \<open>
  C3. After any sequence of tasks, the promise \<open>h\<close> of an entry has been settled at most
  once, so never both fulfilled and rejected; a promise created for key \<open>k\<close> has been
  settled exactly once unless its entry still waits or its operation is still running;
  a fulfilment carries the value with which the awaited promise of the operation was
  fulfilled, a rejection the error with which it was rejected or which the operation threw
  when called; and when the operation that is running finishes, with whatever outcome,
  its promise is settled in that task with that outcome. No promise is left behind: an
  entry waits only while an operation of its key is running; when no operation of a key
  is running, every promise created for that key has been settled, exactly once; and
  if every operation that was called finishes, with whatever outcomes \<open>outs\<close>, then after
  finitely many such tasks no worker is left and every promise created so far has been
  settled exactly once.
\<close>

theorem settled_exactly_once:
  fixes ts :: "('k, 'w, 'e, 'v) task list" and outs :: "handle \<Rightarrow> 'e + 'v"
  shows "settle_count h (trace (run ts (init w))) \<le> 1
    \<and> (h \<in> set (submitted_of k (trace (run ts (init w)))) \<longrightarrow>
         settle_count h (trace (run ts (init w))) =
           (if h \<in> set (inflight_of k (run ts (init w)) @ backlog_of k (run ts (init w))) then 0 else 1))
    \<and> (Resolved k h v \<in> set (trace (run ts (init w))) \<longrightarrow> Settle h (Inr v) \<in> set ts)
    \<and> (Rejected k h e \<in> set (trace (run ts (init w))) \<longrightarrow>
         Settle h (Inl e) \<in> set ts \<or> Invoked k h (Some e) \<in> set (trace (run ts (init w))))
    \<and> (h \<in> set (inflight_of k (run ts (init w))) \<longrightarrow>
         (case out of Inl e' \<Rightarrow> Rejected k h e' | Inr v' \<Rightarrow> Resolved k h v')
            \<in> set (trace (resume h out (run ts (init w)))) \<and>
         settle_count h (trace (resume h out (run ts (init w)))) = 1)
    \<and> (h \<in> set (backlog_of k (run ts (init w))) \<longrightarrow> inflight_of k (run ts (init w)) \<noteq> [])
    \<and> (inflight_of k (run ts (init w)) = [] \<longrightarrow>
         submitted_of k (trace (run ts (init w))) = settled_of k (trace (run ts (init w))) \<and>
         (h \<in> set (submitted_of k (trace (run ts (init w)))) \<longrightarrow>
            settle_count h (trace (run ts (init w))) = 1))
    \<and> (\<exists>us. (\<forall>t \<in> set us. \<exists>h'. t = Settle h' (outs h')) \<and>
           workers (run (ts @ us) (init w)) = [] \<and>
           (\<forall>k' h'. h' \<in> set (submitted_of k' (trace (run ts (init w)))) \<longrightarrow>
              settle_count h' (trace (run (ts @ us) (init w))) = 1))"
proof -
  let ?s = "run ts (init w) :: ('k, 'w, 'e, 'v) qstate"
  note G = ginvD[OF reachable_ginv[of ts w]]
  note A = acct_invD[OF G(2)]
  note Di = acct_distinct[OF G(2)]
  have le: "settle_count h (trace (run ts' (init w))) \<le> 1"
    for ts' :: "('k, 'w, 'e, 'v) task list" and h
  proof -
    note G' = ginvD[OF reachable_ginv[of ts' w]]
    note Di' = acct_distinct[OF G'(2)]
    show ?thesis
    proof (rule settle_count_le_one)
      fix k' show "distinct (settled_of k' (trace (run ts' (init w))))" using Di'(1)[of k'] by simp
    next
      fix k' k'' :: 'k assume "k' \<noteq> k''"
      then show "set (settled_of k' (trace (run ts' (init w)))) \<inter> set (settled_of k'' (trace (run ts' (init w)))) = {}"
        by (rule Di'(2))
    qed
  qed
  have 2: "settle_count h (trace ?s) = (if h \<in> set (inflight_of k ?s @ backlog_of k ?s) then 0 else 1)"
    if sub: "h \<in> set (submitted_of k (trace ?s))"
  proof (cases "h \<in> set (inflight_of k ?s @ backlog_of k ?s)")
    case True
    have "h \<notin> set (settled_of k' (trace ?s))" for k'
    proof (cases "k' = k")
      case True then show ?thesis using Di(1)[of k] \<open>h \<in> set (inflight_of k ?s @ backlog_of k ?s)\<close> by auto
    next
      case False
      have "set (settled_of k' (trace ?s)) \<subseteq> set (submitted_of k' (trace ?s))" using A(1)[of k'] by auto
      then show ?thesis using A(5)[OF False] sub by blast
    qed
    then have "settle_count h (trace ?s) = 0" by (rule settle_count_zero)
    then show ?thesis using True by simp
  next
    case False
    then have "h \<in> set (settled_of k (trace ?s))" using sub A(1)[of k] by auto
    then have "1 \<le> settle_count h (trace ?s)" by (rule settle_count_pos)
    then show ?thesis using False le[of h ts] by simp
  qed
  have J: "justified ts (trace ?s)" by (rule run_justified)
  have 3: "Settle h (Inr v) \<in> set ts" if "Resolved k h v \<in> set (trace ?s)"
    using J that unfolding justified_def by blast
  have 4: "Settle h (Inl e) \<in> set ts \<or> Invoked k h (Some e) \<in> set (trace ?s)"
    if "Rejected k h e \<in> set (trace ?s)"
    using J that unfolding justified_def by blast
  have 5: "(case out of Inl e' \<Rightarrow> Rejected k h e' | Inr v' \<Rightarrow> Resolved k h v')
            \<in> set (trace (resume h out ?s)) \<and> settle_count h (trace (resume h out ?s)) = 1"
    if infl: "h \<in> set (inflight_of k ?s)"
  proof -
    let ?ev = "case out of Inl e' \<Rightarrow> Rejected k h e' | Inr v' \<Rightarrow> Resolved k h v'"
    obtain f where f: "find (\<lambda>f. current f = h) (workers ?s) = Some f" "tenantId f = k"
      using inflight_find[OF G(1,2) infl] by blast
    obtain evs where evs: "trace (resume h out ?s) = (trace ?s @ [?ev]) @ evs"
      unfolding resume_Some[OF f(1)] f(2)
      using processLoop_trace_prefix[of k "queue f" "?s\<lparr>workers := remove1 f (workers ?s),
        trace := trace ?s @ [?ev]\<rparr>"] by auto
    have mem: "?ev \<in> set (trace (resume h out ?s))" unfolding evs by simp
    have "settles h ?ev" by (cases out) simp_all
    then have "1 \<le> settle_count h (trace (resume h out ?s))" unfolding evs by simp
    moreover have "settle_count h (trace (resume h out ?s)) \<le> 1"
      using le[of h "ts @ [Settle h out]"] by (simp add: run_snoc)
    ultimately show ?thesis using mem by simp
  qed
  have 6: "inflight_of k ?s \<noteq> []" if "h \<in> set (backlog_of k ?s)"
    using idle_all_settled(1)[OF reachable_ginv[of ts w], of k] that by auto
  have 7: "submitted_of k (trace ?s) = settled_of k (trace ?s) \<and>
      (h \<in> set (submitted_of k (trace ?s)) \<longrightarrow> settle_count h (trace ?s) = 1)"
    if idle: "inflight_of k ?s = []"
  proof -
    have b: "backlog_of k ?s = []" by (rule idle_all_settled(1)[OF reachable_ginv idle])
    have "submitted_of k (trace ?s) = settled_of k (trace ?s)"
      by (rule idle_all_settled(2)[OF reachable_ginv idle])
    then show ?thesis using 2 idle b by simp
  qed
  have 8: "\<exists>us. (\<forall>t \<in> set us. \<exists>h'. t = Settle h' (outs h')) \<and>
           workers (run (ts @ us) (init w)) = [] \<and>
           (\<forall>k' h'. h' \<in> set (submitted_of k' (trace ?s)) \<longrightarrow>
              settle_count h' (trace (run (ts @ us) (init w))) = 1)"
  proof -
    obtain us where us: "\<forall>t \<in> set us. \<exists>h'. t = Settle h' (outs h')" "workers (run us ?s) = []"
      using drain_exists[OF reachable_ginv[of ts w], of outs] by blast
    let ?f = "run (ts @ us) (init w) :: ('k, 'w, 'e, 'v) qstate"
    have f: "?f = run us ?s" by (rule run_append)
    have wf: "workers ?f = []" using us(2) f by simp
    obtain evs where evs: "trace ?f = trace ?s @ evs"
      using run_trace_prefix[of us ?s] f by auto
    have "settle_count h' (trace ?f) = 1" if sub: "h' \<in> set (submitted_of k' (trace ?s))" for k' h'
    proof -
      have idle: "inflight_of k' ?f = []" using wf by (simp add: inflight_of_def)
      have "submitted_of k' (trace ?f) = settled_of k' (trace ?f)"
        by (rule idle_all_settled(2)[OF reachable_ginv idle])
      moreover have "h' \<in> set (submitted_of k' (trace ?f))" using sub unfolding evs by simp
      ultimately have "h' \<in> set (settled_of k' (trace ?f))" by simp
      then have "1 \<le> settle_count h' (trace ?f)" by (rule settle_count_pos)
      then show ?thesis using le[of h' "ts @ us"] by simp
    qed
    then show ?thesis using us(1) wf by blast
  qed
  show ?thesis
  proof (intro conjI impI)
    show "settle_count h (trace ?s) \<le> 1" by (rule le)
  qed (use 2 3 4 5 6 7 8 in blast)+
qed

theorem settled_exactly_once_witness:
  "0 \<in> set (inflight_of ''a'' (run [Enqueue ''a'' returning, Enqueue ''a'' throwing, Enqueue ''b'' returning] (init 0)))
   \<and> Resolved ''a'' 0 (7::int) \<in> set (trace (resume 0 (Inr 7)
         (run [Enqueue ''a'' returning, Enqueue ''a'' throwing, Enqueue ''b'' returning] (init 0))))
   \<and> settle_count 0 (trace (resume 0 (Inr (7::int))
         (run [Enqueue ''a'' returning, Enqueue ''a'' throwing, Enqueue ''b'' returning] (init 0)))) = 1
   \<and> 1 \<in> set (backlog_of ''a'' (run [Enqueue ''a'' returning, Enqueue ''a'' throwing, Enqueue ''b'' returning] (init 0)))
   \<and> inflight_of ''a'' (run [Enqueue ''a'' returning, Enqueue ''a'' throwing, Enqueue ''b'' returning] (init 0)) \<noteq> []
   \<and> 1 \<in> set (submitted_of ''a'' (trace (run [Enqueue ''a'' returning, Enqueue ''a'' throwing,
         Enqueue ''b'' returning, Settle 0 (Inr (7::int))] (init 0))))
   \<and> inflight_of ''a'' (run [Enqueue ''a'' returning, Enqueue ''a'' throwing,
         Enqueue ''b'' returning, Settle 0 (Inr (7::int))] (init 0)) = []
   \<and> submitted_of ''a'' (trace (run [Enqueue ''a'' returning, Enqueue ''a'' throwing,
         Enqueue ''b'' returning, Settle 0 (Inr (7::int))] (init 0))) =
     settled_of ''a'' (trace (run [Enqueue ''a'' returning, Enqueue ''a'' throwing,
         Enqueue ''b'' returning, Settle 0 (Inr (7::int))] (init 0)))
   \<and> settle_count 1 (trace (run [Enqueue ''a'' returning, Enqueue ''a'' throwing,
         Enqueue ''b'' returning, Settle 0 (Inr (7::int))] (init 0))) = 1
   \<and> Rejected ''a'' 1 ''boom'' \<in> set (trace (run [Enqueue ''a'' returning, Enqueue ''a'' throwing,
         Enqueue ''b'' returning, Settle 0 (Inr (7::int))] (init 0)))
   \<and> 1 \<in> set (submitted_of ''a'' (trace (run [Enqueue ''a'' returning, Settle 0 (Inr (7::int)),
         Enqueue ''a'' returning, Settle 1 (Inr 8)] (init 0 :: (string, nat, string, int) qstate))))
   \<and> inflight_of ''a'' (run [Enqueue ''a'' returning, Settle 0 (Inr (7::int)),
         Enqueue ''a'' returning, Settle 1 (Inr 8)] (init 0 :: (string, nat, string, int) qstate)) = []
   \<and> settle_count 1 (trace (run [Enqueue ''a'' returning, Settle 0 (Inr (7::int)),
         Enqueue ''a'' returning, Settle 1 (Inr 8)] (init 0 :: (string, nat, string, int) qstate))) = 1
   \<and> Resolved ''a'' 1 (8::int) \<in> set (trace (run [Enqueue ''a'' returning, Settle 0 (Inr (7::int)),
         Enqueue ''a'' returning, Settle 1 (Inr 8)] (init 0 :: (string, nat, string, int) qstate)))
   \<and> workers (run ([Enqueue ''a'' returning, Enqueue ''a'' throwing, Enqueue ''b'' returning]
         @ [Settle 0 (Inr (7::int)), Settle 2 (Inr 7)]) (init 0 :: (string, nat, string, int) qstate)) = []"
  using settled_exactly_once[where h = 0 and k = "''a''" and w = 0 and out = "Inr (7::int)"
      and ts = "[Enqueue ''a'' returning, Enqueue ''a'' throwing, Enqueue ''b'' returning]"]
    settled_exactly_once[where h = 1 and k = "''a''" and w = 0 and e = "''boom''"
      and ts = "[Enqueue ''a'' returning, Enqueue ''a'' throwing, Enqueue ''b'' returning, Settle 0 (Inr (7::int))]"]
    settled_exactly_once[where h = 1 and k = "''a''" and w = 0 and v = "8::int"
      and ts = "[Enqueue ''a'' returning, Settle 0 (Inr (7::int)), Enqueue ''a'' returning, Settle 1 (Inr 8)]"]
  by (simp add: run_eval)

lemma base_invD:
  assumes "base_inv h0 h1 s"
  shows "h1 \<le> next_handle s"
    and "e \<in> set (heap s a) \<Longrightarrow> handle e < next_handle s"
    and "e \<in> set (heap s a) \<Longrightarrow> of_run h0 h1 (handle e) \<Longrightarrow> operation e = reset_operation"
    and "e \<in> set (heap s a) \<Longrightarrow> \<not> of_run h0 h1 (handle e) \<Longrightarrow> foreign (operation e)"
    and "Invoked k h r \<in> set (trace s) \<Longrightarrow> h < next_handle s"
proof -
  note u = assms[unfolded base_inv_def]
  show "h1 \<le> next_handle s" using u[THEN conjunct1] .
  have 2: "\<forall>a. \<forall>e \<in> set (heap s a).
        handle e < next_handle s \<and>
        (if of_run h0 h1 (handle e) then operation e = reset_operation else foreign (operation e))"
    using u[THEN conjunct2, THEN conjunct1] .
  show "e \<in> set (heap s a) \<Longrightarrow> handle e < next_handle s" using 2 by blast
  show "e \<in> set (heap s a) \<Longrightarrow> of_run h0 h1 (handle e) \<Longrightarrow> operation e = reset_operation"
    using 2 by (metis (full_types))
  show "e \<in> set (heap s a) \<Longrightarrow> \<not> of_run h0 h1 (handle e) \<Longrightarrow> foreign (operation e)"
    using 2 by (metis (full_types))
  show "Invoked k h r \<in> set (trace s) \<Longrightarrow> h < next_handle s"
    using u[THEN conjunct2, THEN conjunct2] by blast
qed

lemma reset_operation_effect:
  "reset_operation w = (w', r) \<Longrightarrow>
     r = None \<and> resetExecuted w' \<and>
     resetAllCounters_calls w' = (if resetExecuted w then resetAllCounters_calls w
                                  else Suc (resetAllCounters_calls w))"
  by (auto simp: reset_operation_def split: if_splits)

lemma foreign_effect:
  "foreign opn \<Longrightarrow> opn w = (w', r) \<Longrightarrow>
     resetExecuted w' = resetExecuted w \<and> resetAllCounters_calls w' = resetAllCounters_calls w"
  unfolding foreign_def by (metis fst_conv)

lemma job_plain:
  assumes b: "base_inv h0 h1 s"
    and eqs: "heap s' = heap s" "world s' = world s" "next_handle s' = next_handle s"
    and tr: "\<forall>ev \<in> set (trace s'). ev \<in> set (trace s) \<or> (\<forall>k h r. ev \<noteq> Invoked k h r)"
    and sub: "set (trace s) \<subseteq> set (trace s')"
  shows "base_inv h0 h1 s' \<and> (count_inv h0 h1 c0 s \<longrightarrow> count_inv h0 h1 c0 s')"
proof
  show "base_inv h0 h1 s'"
    using b tr unfolding base_inv_def eqs by blast
  show "count_inv h0 h1 c0 s \<longrightarrow> count_inv h0 h1 c0 s'"
  proof (cases "resetExecuted (world s)")
    case True
    then show ?thesis using sub unfolding count_inv_def eqs by auto
  next
    case False
    then show ?thesis using tr unfolding count_inv_def eqs by auto
  qed
qed

lemma job_invoke:
  assumes b: "base_inv h0 h1 s" and hd: "heap s a = e # rest"
    and op: "operation e (world s) = (w', r)"
    and eqs: "heap s' = (heap s)(a := rest)" "world s' = w'" "next_handle s' = next_handle s"
    and tr: "\<forall>ev \<in> set (trace s'). ev \<in> set (trace s) \<or> ev = Invoked k (handle e) r
               \<or> (\<forall>k h r. ev \<noteq> Invoked k h r)"
    and grow: "set (trace s) \<subseteq> set (trace s')" "Invoked k (handle e) r \<in> set (trace s')"
  shows "base_inv h0 h1 s' \<and> (count_inv h0 h1 c0 s \<longrightarrow> count_inv h0 h1 c0 s')"
proof
  note B = base_invD[OF b]
  have e: "e \<in> set (heap s a)" using hd by simp
  have sub: "\<And>a' x. x \<in> set (heap s' a') \<Longrightarrow> x \<in> set (heap s a')"
    using hd by (auto simp: eqs split: if_splits)
  show "base_inv h0 h1 s'"
    unfolding base_inv_def
  proof (intro conjI allI ballI impI)
    show "h1 \<le> next_handle s'" using B(1) by (simp add: eqs)
  next
    fix a' x assume "x \<in> set (heap s' a')"
    then have x: "x \<in> set (heap s a')" by (rule sub)
    show "handle x < next_handle s'" using B(2)[OF x] by (simp add: eqs)
    show "if of_run h0 h1 (handle x) then operation x = reset_operation else foreign (operation x)"
      using B(3)[OF x] B(4)[OF x] by simp
  next
    fix k' h' r' assume "Invoked k' h' r' \<in> set (trace s')"
    then have "Invoked k' h' r' \<in> set (trace s) \<or> Invoked k' h' r' = Invoked k (handle e) r"
      using tr by blast
    then show "h' < next_handle s'" using B(5)[of k' h' r'] B(2)[OF e] by (auto simp: eqs)
  qed
  show "count_inv h0 h1 c0 s \<longrightarrow> count_inv h0 h1 c0 s'"
  proof
    assume c: "count_inv h0 h1 c0 s"
    show "count_inv h0 h1 c0 s'"
    proof (cases "of_run h0 h1 (handle e)")
      case True
      then have "operation e = reset_operation" using B(3)[OF e] by simp
      then have "resetExecuted w' \<and> resetAllCounters_calls w' =
          (if resetExecuted (world s) then resetAllCounters_calls (world s)
           else Suc (resetAllCounters_calls (world s)))"
        using reset_operation_effect[of "world s" w' r] op by simp
      moreover have "\<exists>k h r. Invoked k h r \<in> set (trace s') \<and> of_run h0 h1 h"
        using grow(2) True by blast
      ultimately show ?thesis using c unfolding count_inv_def eqs by (simp split: if_splits)
    next
      case False
      then have "foreign (operation e)" using B(4)[OF e] by simp
      then have same: "resetExecuted w' = resetExecuted (world s)"
        "resetAllCounters_calls w' = resetAllCounters_calls (world s)"
        using foreign_effect[where opn = "operation e" and w = "world s" and w' = w' and r = r] op by simp_all
      have "\<not> of_run h0 h1 h'" if "Invoked k' h' r' \<in> set (trace s')" "\<not> resetExecuted (world s)" for k' h' r'
      proof -
        have "Invoked k' h' r' \<in> set (trace s) \<or> Invoked k' h' r' = Invoked k (handle e) r"
          using tr that(1) by blast
        then show ?thesis using c that(2) False unfolding count_inv_def by auto
      qed
      moreover have "\<exists>k h r. Invoked k h r \<in> set (trace s') \<and> of_run h0 h1 h"
        if "\<exists>k h r. Invoked k h r \<in> set (trace s) \<and> of_run h0 h1 h"
        using that grow(1) by blast
      ultimately show ?thesis using c unfolding count_inv_def eqs same by (simp split: if_splits)
    qed
  qed
qed

lemma processLoop_job:
  "base_inv h0 h1 s \<Longrightarrow>
   base_inv h0 h1 (processLoop k a s) \<and> (count_inv h0 h1 c0 s \<longrightarrow> count_inv h0 h1 c0 (processLoop k a s))"
proof (induction k a s rule: processLoop.induct)
  case (1 k a s)
  show ?case
  proof (cases "heap s a")
    case Nil
    show ?thesis unfolding processLoop_Nil[OF Nil]
      by (rule job_plain[OF "1.prems"]) auto
  next
    case (Cons e rest)
    obtain w' r where op: "operation e (world s) = (w', r)" by (cases "operation e (world s)")
    show ?thesis
    proof (cases r)
      case None
      show ?thesis unfolding processLoop_susp[OF Cons op[unfolded None]]
        by (rule job_invoke[OF "1.prems" Cons op[unfolded None]]) auto
    next
      case (Some err)
      let ?s' = "s\<lparr> heap := (heap s)(a := rest), world := w',
        trace := trace s @ [Invoked k (handle e) (Some err), Rejected k (handle e) err] \<rparr>"
      have inv: "invoke k a e rest s = (Some err, s\<lparr> heap := (heap s)(a := rest), world := w',
                trace := trace s @ [Invoked k (handle e) (Some err)] \<rparr>)"
        using op Some by (simp add: invoke_def)
      have one: "base_inv h0 h1 ?s' \<and> (count_inv h0 h1 c0 s \<longrightarrow> count_inv h0 h1 c0 ?s')"
        by (rule job_invoke[OF "1.prems" Cons op[unfolded Some]]) auto
      then have two: "base_inv h0 h1 (processLoop k a ?s') \<and>
          (count_inv h0 h1 c0 ?s' \<longrightarrow> count_inv h0 h1 c0 (processLoop k a ?s'))"
        using "1.IH"[OF Cons inv[symmetric] refl] by simp
      show ?thesis unfolding processLoop_throw[OF Cons op[unfolded Some]]
        using one two by blast
    qed
  qed
qed

lemma processQueue_job:
  assumes b: "base_inv h0 h1 s"
  shows "base_inv h0 h1 (processQueue k s) \<and>
     (count_inv h0 h1 c0 s \<longrightarrow> count_inv h0 h1 c0 (processQueue k s))"
proof -
  let ?s1 = "s\<lparr> processing := insert k (processing s), trace := trace s @ [WorkerStart k] \<rparr>"
  have 1: "base_inv h0 h1 ?s1 \<and> (count_inv h0 h1 c0 s \<longrightarrow> count_inv h0 h1 c0 ?s1)"
    by (rule job_plain[OF b]) auto
  show ?thesis
  proof (cases "queues s k")
    case None
    then show ?thesis using 1 by (simp add: processQueue_def)
  next
    case (Some a)
    have "base_inv h0 h1 (processLoop k a ?s1) \<and>
        (count_inv h0 h1 c0 ?s1 \<longrightarrow> count_inv h0 h1 c0 (processLoop k a ?s1))"
      using processLoop_job[of h0 h1 ?s1 k a c0] 1 by blast
    then show ?thesis using 1 Some by (simp add: processQueue_def)
  qed
qed

lemma job_push:
  assumes b: "base_inv h0 h1 s"
    and rng: "h1' = h1 \<or> (h1 = next_handle s \<and> h1' = Suc (next_handle s))"
    and new: "if of_run h0 h1' (next_handle s) then opn = reset_operation else foreign opn"
    and eqs: "world s' = world s" "next_handle s' = Suc (next_handle s)" "trace s' = trace s @ [Submitted k (next_handle s)]"
    and hp: "\<forall>a' x. x \<in> set (heap s' a') \<longrightarrow>
               x \<in> set (heap s a') \<or> x = \<lparr> operation = opn, handle = next_handle s \<rparr>"
  shows "base_inv h0 h1' s' \<and> (count_inv h0 h1 c0 s \<longrightarrow> count_inv h0 h1' c0 s')"
proof
  note B = base_invD[OF b]
  have old: "of_run h0 h1' h = of_run h0 h1 h" if "h < next_handle s" for h
    using that rng B(1) by (auto simp: of_run_def)
  show "base_inv h0 h1' s'"
    unfolding base_inv_def
  proof (intro conjI allI ballI impI)
    show "h1' \<le> next_handle s'" using rng B(1) by (auto simp: eqs)
  next
    fix a' x assume "x \<in> set (heap s' a')"
    then consider "x \<in> set (heap s a')" | "x = \<lparr> operation = opn, handle = next_handle s \<rparr>"
      using hp by blast
    then show "handle x < next_handle s'"
      using B(2)[of x a'] by cases (auto simp: eqs)
  next
    fix a' x assume "x \<in> set (heap s' a')"
    then consider "x \<in> set (heap s a')" | "x = \<lparr> operation = opn, handle = next_handle s \<rparr>"
      using hp by blast
    then show "if of_run h0 h1' (handle x) then operation x = reset_operation else foreign (operation x)"
    proof cases
      case 1
      then show ?thesis using B(3)[OF 1] B(4)[OF 1] old[OF B(2)[OF 1]] by simp
    next
      case 2
      then show ?thesis using new by simp
    qed
  next
    fix k' h' r' assume "Invoked k' h' r' \<in> set (trace s')"
    then show "h' < next_handle s'" using B(5)[of k' h' r'] by (auto simp: eqs)
  qed
  show "count_inv h0 h1 c0 s \<longrightarrow> count_inv h0 h1' c0 s'"
  proof (cases "resetExecuted (world s)")
    case True
    have "\<exists>k h r. Invoked k h r \<in> set (trace s') \<and> of_run h0 h1' h"
      if "\<exists>k h r. Invoked k h r \<in> set (trace s) \<and> of_run h0 h1 h"
    proof -
      from that obtain k' h' r' where i: "Invoked k' h' r' \<in> set (trace s)" "of_run h0 h1 h'" by blast
      then have "of_run h0 h1' h'" using old[OF B(5)[OF i(1)]] by simp
      then show ?thesis using i(1) by (auto simp: eqs)
    qed
    then show ?thesis using True unfolding count_inv_def eqs by (simp split: if_splits)
  next
    case False
    then show ?thesis using old B(5) unfolding count_inv_def eqs by (auto split: if_splits)
  qed
qed

lemma enqueue_job:
  assumes b: "base_inv h0 h1 s"
    and rng: "h1' = h1 \<or> (h1 = next_handle s \<and> h1' = Suc (next_handle s))"
    and new: "if of_run h0 h1' (next_handle s) then opn = reset_operation else foreign opn"
  shows "base_inv h0 h1' (snd (enqueue k opn s)) \<and>
     (count_inv h0 h1 c0 s \<longrightarrow> count_inv h0 h1' c0 (snd (enqueue k opn s)))"
proof -
  define s1 where "s1 = (if queues s k = None
                then s\<lparr> queues := (queues s)(k \<mapsto> next_addr s),
                        heap := (heap s)(next_addr s := []),
                        next_addr := Suc (next_addr s) \<rparr>
                else s)"
  obtain a where a: "queues s1 k = Some a" by (cases "queues s k") (auto simp: s1_def)
  define s2 where "s2 = s1\<lparr> heap := (heap s1)(a := heap s1 a @ [\<lparr> operation = opn, handle = next_handle s1 \<rparr>]),
                          next_handle := Suc (next_handle s1),
                          trace := trace s1 @ [Submitted k (next_handle s1)] \<rparr>"
  have f1: "world s1 = world s" "next_handle s1 = next_handle s" "trace s1 = trace s"
    "\<And>a' x. x \<in> set (heap s1 a') \<Longrightarrow> x \<in> set (heap s a')"
    by (auto simp: s1_def split: if_splits)
  have push: "base_inv h0 h1' s2 \<and> (count_inv h0 h1 c0 s \<longrightarrow> count_inv h0 h1' c0 s2)"
    by (rule job_push[OF b rng new]) (auto simp: s2_def f1 split: if_splits dest: f1(4))
  have res: "snd (enqueue k opn s) = (if k \<in> processing s2 then s2 else processQueue k s2)"
    using a unfolding enqueue_def s1_def[symmetric] by (simp add: Let_def s2_def)
  show ?thesis
  proof (cases "k \<in> processing s2")
    case True then show ?thesis using push res by simp
  next
    case False
    have "base_inv h0 h1' (processQueue k s2) \<and>
       (count_inv h0 h1' c0 s2 \<longrightarrow> count_inv h0 h1' c0 (processQueue k s2))"
      using processQueue_job[of h0 h1' s2 k c0] push by blast
    then show ?thesis using push res False by simp
  qed
qed

lemma resume_job:
  assumes b: "base_inv h0 h1 s"
  shows "base_inv h0 h1 (resume h out s) \<and>
     (count_inv h0 h1 c0 s \<longrightarrow> count_inv h0 h1 c0 (resume h out s))"
proof (cases "find (\<lambda>f. current f = h) (workers s)")
  case None then show ?thesis using b by (simp add: resume_None)
next
  case (Some f)
  let ?s1 = "s\<lparr> workers := remove1 f (workers s),
           trace := trace s @ [case out of Inl e \<Rightarrow> Rejected (tenantId f) h e
                                          | Inr v \<Rightarrow> Resolved (tenantId f) h v] \<rparr>"
  have 1: "base_inv h0 h1 ?s1 \<and> (count_inv h0 h1 c0 s \<longrightarrow> count_inv h0 h1 c0 ?s1)"
    by (rule job_plain[OF b]) (auto split: sum.splits)
  have "base_inv h0 h1 (processLoop (tenantId f) (queue f) ?s1) \<and>
        (count_inv h0 h1 c0 ?s1 \<longrightarrow> count_inv h0 h1 c0 (processLoop (tenantId f) (queue f) ?s1))"
    using processLoop_job[of h0 h1 ?s1 "tenantId f" "queue f" c0] 1 by blast
  then show ?thesis unfolding resume_Some[OF Some] using 1 by blast
qed

lemma of_run_above: "h1 \<le> h \<Longrightarrow> \<not> of_run h0 h1 h"
  by (simp add: of_run_def)

lemma step_job:
  assumes b: "base_inv h0 h1 s" and f: "foreign_task t"
  shows "base_inv h0 h1 (step t s) \<and> (count_inv h0 h1 c0 s \<longrightarrow> count_inv h0 h1 c0 (step t s))"
proof (cases t)
  case (Enqueue k opn)
  have "\<not> of_run h0 h1 (next_handle s)" using base_invD(1)[OF b] by (rule of_run_above)
  then show ?thesis using enqueue_job[OF b, of h1 opn k c0] f Enqueue by simp
next
  case (Settle h out)
  then show ?thesis using resume_job[OF b] by simp
qed

lemma run_job:
  assumes "base_inv h0 h1 s" and "\<forall>t \<in> set ts. foreign_task t"
  shows "base_inv h0 h1 (run ts s) \<and> (count_inv h0 h1 c0 s \<longrightarrow> count_inv h0 h1 c0 (run ts s))"
  using assms
proof (induction ts arbitrary: s)
  case Nil show ?case using Nil by (simp add: run_def)
next
  case (Cons t ts)
  have 1: "base_inv h0 h1 (step t s) \<and> (count_inv h0 h1 c0 s \<longrightarrow> count_inv h0 h1 c0 (step t s))"
    using step_job[OF Cons.prems(1)] Cons.prems(2) by simp
  have 2: "base_inv h0 h1 (run ts (step t s)) \<and>
      (count_inv h0 h1 c0 (step t s) \<longrightarrow> count_inv h0 h1 c0 (run ts (step t s)))"
    using Cons.IH[of "step t s"] 1 Cons.prems(2) by simp
  show ?case using 1 2 by (simp add: run_Cons)
qed

lemma init_base: "base_inv 0 0 (init w)"
  by (simp add: base_inv_def)

lemma processLoop_submitted:
  "submitted_of t (trace (processLoop k a s)) = submitted_of t (trace s)"
proof (induction k a s rule: processLoop.induct)
  case (1 k a s)
  show ?case
  proof (cases "heap s a")
    case Nil
    show ?thesis unfolding processLoop_Nil[OF Nil] by simp
  next
    case (Cons e rest)
    obtain w' r where op: "operation e (world s) = (w', r)" by (cases "operation e (world s)")
    show ?thesis
    proof (cases r)
      case None
      show ?thesis unfolding processLoop_susp[OF Cons op[unfolded None]] by simp
    next
      case (Some err)
      have inv: "invoke k a e rest s = (Some err, s\<lparr> heap := (heap s)(a := rest), world := w',
                trace := trace s @ [Invoked k (handle e) (Some err)] \<rparr>)"
        using op Some by (simp add: invoke_def)
      show ?thesis unfolding processLoop_throw[OF Cons op[unfolded Some]]
        using "1.IH"[OF Cons inv[symmetric] refl] by simp
    qed
  qed
qed

lemma processQueue_submitted:
  "submitted_of t (trace (processQueue k s)) = submitted_of t (trace s)"
  by (cases "queues s k") (simp_all add: processQueue_def processLoop_submitted)

lemma enqueue_submitted:
  "submitted_of t (trace (snd (enqueue k opn s))) =
     submitted_of t (trace s) @ (if t = k then [next_handle s] else [])"
  by (cases "queues s k"; cases "k \<in> processing s")
     (simp_all add: enqueue_def Let_def processQueue_submitted)

lemma enqueue_next_handle: "next_handle (snd (enqueue k opn s)) = Suc (next_handle s)"
proof -
  have pl: "next_handle (processLoop k a s) = next_handle s" for k a and s :: "('a, 'b, 'c, 'd) qstate"
  proof (induction k a s rule: processLoop.induct)
    case (1 k a s)
    show ?case
    proof (cases "heap s a")
      case Nil
      show ?thesis unfolding processLoop_Nil[OF Nil] by simp
    next
      case (Cons e rest)
      obtain w' r where op: "operation e (world s) = (w', r)" by (cases "operation e (world s)")
      show ?thesis
      proof (cases r)
        case None
        show ?thesis unfolding processLoop_susp[OF Cons op[unfolded None]] by simp
      next
        case (Some err)
        have inv: "invoke k a e rest s = (Some err, s\<lparr> heap := (heap s)(a := rest), world := w',
                trace := trace s @ [Invoked k (handle e) (Some err)] \<rparr>)"
          using op Some by (simp add: invoke_def)
        show ?thesis unfolding processLoop_throw[OF Cons op[unfolded Some]]
          using "1.IH"[OF Cons inv[symmetric] refl] by simp
      qed
    qed
  qed
  have pq: "next_handle (processQueue k s) = next_handle s" for s :: "('a, 'b, 'c, 'd) qstate"
    by (cases "queues s k") (simp_all add: processQueue_def pl)
  show ?thesis
    by (cases "queues s k"; cases "k \<in> processing s") (simp_all add: enqueue_def Let_def pq)
qed

lemma tenant_ids_unique:
  "distinct (fold (\<lambda>t acc. if t \<in> set acc then acc else acc @ [t]) rows acc0) =  distinct acc0
   \<and> set (fold (\<lambda>t acc. if t \<in> set acc then acc else acc @ [t]) rows acc0) = set acc0 \<union> set rows"
  by (induction rows arbitrary: acc0) auto

lemma getAllTenantIds_Inr:
  "getAllTenantIds (Inr rows) = Inr ids \<Longrightarrow> distinct ids \<and> set ids = set rows"
  using tenant_ids_unique[of rows "[]"] by (auto simp: getAllTenantIds_def)

text \<open>The calls of \<open>enqueue\<close> that \<open>resetCounters\<close> makes, one tenant after the other.\<close>

lemma reset_fold:
  assumes "base_inv h0 (next_handle s) s" and "count_inv h0 (next_handle s) c0 s"
    and "h0 \<le> next_handle s"
  shows "base_inv h0 (next_handle (fold (\<lambda>k st. snd (enqueue k reset_operation st)) ks s))
           (fold (\<lambda>k st. snd (enqueue k reset_operation st)) ks s)
     \<and> count_inv h0 (next_handle (fold (\<lambda>k st. snd (enqueue k reset_operation st)) ks s)) c0
           (fold (\<lambda>k st. snd (enqueue k reset_operation st)) ks s)
     \<and> next_handle (fold (\<lambda>k st. snd (enqueue k reset_operation st)) ks s) = next_handle s + length ks
     \<and> (\<forall>t. \<exists>hs. submitted_of t (trace (fold (\<lambda>k st. snd (enqueue k reset_operation st)) ks s)) =
            submitted_of t (trace s) @ hs \<and> length hs = count_list ks t
            \<and> (\<forall>h \<in> set hs. next_handle s \<le> h))"
  using assms
proof (induction ks arbitrary: s)
  case Nil
  then show ?case by simp
next
  case (Cons k ks)
  let ?s1 = "snd (enqueue k reset_operation s)"
  let ?f = "fold (\<lambda>k st. snd (enqueue k reset_operation st)) ks ?s1"
  have nh: "next_handle ?s1 = Suc (next_handle s)" by (rule enqueue_next_handle)
  have "of_run h0 (Suc (next_handle s)) (next_handle s)"
    using Cons.prems(3) by (simp add: of_run_def)
  then have step: "base_inv h0 (Suc (next_handle s)) ?s1 \<and> count_inv h0 (Suc (next_handle s)) c0 ?s1"
    using enqueue_job[OF Cons.prems(1), of "Suc (next_handle s)" reset_operation k c0] Cons.prems(2)
    by simp
  have IH: "base_inv h0 (next_handle ?f) ?f \<and> count_inv h0 (next_handle ?f) c0 ?f
     \<and> next_handle ?f = next_handle ?s1 + length ks
     \<and> (\<forall>t. \<exists>hs. submitted_of t (trace ?f) = submitted_of t (trace ?s1) @ hs
            \<and> length hs = count_list ks t \<and> (\<forall>h \<in> set hs. next_handle ?s1 \<le> h))"
  proof -
    have le: "h0 \<le> next_handle ?s1" using Cons.prems(3) unfolding nh by simp
    show ?thesis
      using Cons.IH[of ?s1, OF step[THEN conjunct1, folded nh] step[THEN conjunct2, folded nh] le] .
  qed
  have sub: "\<exists>hs. submitted_of t (trace ?f) = submitted_of t (trace s) @ hs
      \<and> length hs = count_list (k # ks) t \<and> (\<forall>h \<in> set hs. next_handle s \<le> h)" for t
  proof -
    obtain hs where hs: "submitted_of t (trace ?f) = submitted_of t (trace ?s1) @ hs"
      "length hs = count_list ks t" "\<forall>h \<in> set hs. next_handle ?s1 \<le> h"
      using IH by blast
    show ?thesis
      using hs unfolding nh enqueue_submitted
      by (intro exI[of _ "(if t = k then [next_handle s] else []) @ hs"]) auto
  qed
  have n: "next_handle ?f = next_handle s + length (k # ks)" using IH unfolding nh by simp
  have eq: "fold (\<lambda>k st. snd (enqueue k reset_operation st)) (k # ks) s = ?f" by simp
  show ?case unfolding eq
    using IH[THEN conjunct1] IH[THEN conjunct2, THEN conjunct1] n sub by blast
qed

lemma count_list_distinct: "distinct ks \<Longrightarrow> count_list ks t = (if t \<in> set ks then 1 else 0)"
  by (induction ks) auto

lemma base_empty:
  assumes "base_inv a a s" and "b \<le> next_handle s"
  shows "base_inv b b s"
  using assms unfolding base_inv_def of_run_def by auto

lemma ginv_world: "ginv act (s\<lparr> world := x \<rparr>) = ginv act s"
proof -
  have b: "\<And>k. backlog_of k (s\<lparr> world := x \<rparr>) = backlog_of k s"
    by (simp add: backlog_of_def split: option.splits)
  have i: "\<And>k. inflight_of k (s\<lparr> world := x \<rparr>) = inflight_of k s"
    by (simp add: inflight_of_def)
  show ?thesis
    by (simp add: ginv_def struct_inv_def owned_def acct_inv_def trace_inv_def b i)
qed

lemma base_world: "base_inv h0 h1 (s\<lparr> world := x \<rparr>) = base_inv h0 h1 s"
  by (simp add: base_inv_def)

lemma fold_enqueue_ginv:
  "ginv None s \<Longrightarrow> ginv None (fold (\<lambda>k st. snd (enqueue k opn st)) ks s)"
  by (induction ks arbitrary: s) (simp_all add: enqueue_ginv)

lemma invoked_of_mem: "h \<in> set (invoked_of k tr) \<Longrightarrow> \<exists>r. Invoked k h r \<in> set tr"
proof (induction tr)
  case Nil then show ?case by simp
next
  case (Cons ev tr)
  show ?case
  proof (cases "h \<in> set (invoked_ev k ev)")
    case True
    then obtain r where "ev = Invoked k h r" by (cases ev) (auto split: if_splits)
    then show ?thesis by auto
  next
    case False
    then show ?thesis using Cons by auto
  qed
qed

lemma count_inv_bounds:
  assumes "count_inv h0 h1 c0 s"
  shows "c0 \<le> resetAllCounters_calls (world s)" "resetAllCounters_calls (world s) \<le> Suc c0"
    and "Invoked k h r \<in> set (trace s) \<Longrightarrow> of_run h0 h1 h \<Longrightarrow> resetAllCounters_calls (world s) = Suc c0"
    and "(\<And>k h r. Invoked k h r \<in> set (trace s) \<Longrightarrow> \<not> of_run h0 h1 h) \<Longrightarrow> resetAllCounters_calls (world s) = c0"
  using assms unfolding count_inv_def by (auto split: if_splits)

text \<open>
  C8. Let the queue have served other callers only, let \<open>resetCounters\<close> receive the
  rows of its query, and let any tasks of other callers follow. The run calls \<open>enqueue\<close>
  exactly once for every tenant identifier among the rows and for no other key. From
  then on \<open>resetAllCounters\<close> has been called at most once more than before the run:
  exactly once as soon as one of the operations of the run has been called, which is the
  case when there is a tenant and the queue has drained, and not at all when there is no
  tenant. A failed query queues nothing.
\<close>

theorem reset_runs_once:
  fixes ts us :: "('k, 'z job_vars_scheme, 'e, 'v) task list" and rows :: "'k list" and err :: 'x
    and w :: "'z job_vars_scheme"
  defines "pre \<equiv> run ts (init w)"
    and "mid \<equiv> resetCounters (Inr rows :: 'x + 'k list) (run ts (init w))"
    and "fin \<equiv> run us (resetCounters (Inr rows :: 'x + 'k list) (run ts (init w)))"
  assumes ots: "\<forall>t \<in> set ts. foreign_task t" and ous: "\<forall>t \<in> set us. foreign_task t"
  shows "(\<forall>t. length (submitted_of t (trace mid)) =
              length (submitted_of t (trace pre)) + (if t \<in> set rows then 1 else 0))
    \<and> resetAllCounters_calls (world pre) \<le> resetAllCounters_calls (world fin)
    \<and> resetAllCounters_calls (world fin) \<le> Suc (resetAllCounters_calls (world pre))
    \<and> ((\<exists>k h r. Invoked k h r \<in> set (trace fin) \<and> next_handle pre \<le> h \<and> h < next_handle mid) \<longrightarrow>
          resetAllCounters_calls (world fin) = Suc (resetAllCounters_calls (world pre)))
    \<and> (rows \<noteq> [] \<and> workers fin = [] \<longrightarrow>
          resetAllCounters_calls (world fin) = Suc (resetAllCounters_calls (world pre)))
    \<and> (rows = [] \<longrightarrow> resetAllCounters_calls (world fin) = resetAllCounters_calls (world pre))
    \<and> resetCounters (Inl err :: 'x + 'k list) pre = pre"
proof -
  define c0 where "c0 = resetAllCounters_calls (world pre)"
  define h0 where "h0 = next_handle pre"
  obtain ids where ids: "getAllTenantIds (Inr rows :: 'x + 'k list) = Inr ids"
    by (simp add: getAllTenantIds_def)
  note U = getAllTenantIds_Inr[OF ids]
  define start where "start = pre\<lparr> world := (world pre)\<lparr> resetExecuted := False \<rparr> \<rparr>"
  have mid: "mid = fold (\<lambda>k st. snd (enqueue k reset_operation st)) ids start"
    unfolding mid_def resetCounters_def ids start_def pre_def by simp
  have b0: "base_inv 0 0 pre"
    unfolding pre_def by (rule run_job[OF init_base ots, THEN conjunct1])
  have bpre: "base_inv h0 h0 pre"
    unfolding h0_def by (rule base_empty[OF b0]) simp
  have bstart: "base_inv h0 (next_handle start) start"
    using bpre unfolding start_def h0_def by (simp add: base_world)
  have cstart: "count_inv h0 (next_handle start) c0 start"
    unfolding start_def h0_def c0_def count_inv_def of_run_def by simp
  have le: "h0 \<le> next_handle start" unfolding start_def h0_def by simp
  note R = reset_fold[OF bstart cstart le, of ids, folded mid]
  have bmid: "base_inv h0 (next_handle mid) mid"
    by (rule R[THEN conjunct1])
  have cmid: "count_inv h0 (next_handle mid) c0 mid"
    by (rule R[THEN conjunct2, THEN conjunct1])
  have nmid: "next_handle mid = next_handle start + length ids"
    by (rule R[THEN conjunct2, THEN conjunct2, THEN conjunct1])
  note S = R[THEN conjunct2, THEN conjunct2, THEN conjunct2, rule_format]
  have fin: "fin = run us mid" unfolding fin_def mid_def by simp
  have cfin: "count_inv h0 (next_handle mid) c0 fin"
    unfolding fin by (rule run_job[OF bmid ous, THEN conjunct2, rule_format, OF cmid])
  note C = count_inv_bounds[OF cfin]
  have 1: "length (submitted_of t (trace mid)) =
      length (submitted_of t (trace pre)) + (if t \<in> set rows then 1 else 0)" for t
  proof -
    obtain hs where "submitted_of t (trace mid) = submitted_of t (trace start) @ hs"
      "length hs = count_list ids t"
      using S[of t] by blast
    then show ?thesis using count_list_distinct[of ids t] U by (simp add: start_def)
  qed
  have 4: "resetAllCounters_calls (world fin) = Suc c0"
    if "\<exists>k h r. Invoked k h r \<in> set (trace fin) \<and> h0 \<le> h \<and> h < next_handle mid"
    using that C(3) by (auto simp: of_run_def)
  have 5: "resetAllCounters_calls (world fin) = Suc c0" if ne: "rows \<noteq> []" and dr: "workers fin = []"
  proof -
    obtain t where t: "t \<in> set ids" using ne U by (cases ids) auto
    obtain hs where hs: "submitted_of t (trace mid) = submitted_of t (trace start) @ hs"
      "length hs = count_list ids t" "\<forall>h \<in> set hs. next_handle start \<le> h"
      using S[of t] by blast
    have "length hs = 1" using hs(2) count_list_distinct[of ids t] U t by simp
    then obtain h where h: "h \<in> set hs" by (cases hs) auto
    have gpre: "ginv None pre" unfolding pre_def by (rule reachable_ginv)
    then have gmid: "ginv None mid"
      unfolding mid start_def by (intro fold_enqueue_ginv) (simp add: ginv_world)
    then have gfin: "ginv None fin" unfolding fin by (rule run_ginv)
    have hm: "h \<in> set (submitted_of t (trace mid))" using hs(1) h by simp
    then have lt: "h < next_handle mid" using acct_invD(3)[OF ginvD(2)[OF gmid]] by blast
    have ge: "h0 \<le> h" using hs(3) h unfolding start_def h0_def by simp
    obtain evs where "trace fin = trace mid @ evs" unfolding fin using run_trace_prefix by blast
    then have hf: "h \<in> set (submitted_of t (trace fin))" using hm by simp
    have "queues fin t = None"
      using struct_invD(1)[OF ginvD(1)[OF gfin], of t] dr by (cases "queues fin t") (auto simp: owned_def)
    then have "backlog_of t fin = []" "inflight_of t fin = []"
      using dr by (simp_all add: backlog_of_def inflight_of_def)
    then have "h \<in> set (invoked_of t (trace fin))"
      using hf acct_invD(1)[OF ginvD(2)[OF gfin], of t] acct_invD(2)[OF ginvD(2)[OF gfin], of t] by simp
    then have "\<exists>r. Invoked t h r \<in> set (trace fin)" by (rule invoked_of_mem)
    then have "\<exists>k h r. Invoked k h r \<in> set (trace fin) \<and> h0 \<le> h \<and> h < next_handle mid"
      using ge lt by blast
    then show ?thesis by (rule 4)
  qed
  have 6: "resetAllCounters_calls (world fin) = c0" if "rows = []"
  proof -
    have "ids = []" using that U by simp
    then have "next_handle mid = h0" using nmid unfolding start_def h0_def by simp
    then show ?thesis using C(4) by (simp add: of_run_def)
  qed
  have 7: "resetCounters (Inl err :: 'x + 'k list) pre = pre"
    by (simp add: resetCounters_def getAllTenantIds_def)
  show ?thesis using 1 C(1,2) 4 5 6 7 unfolding c0_def h0_def by blast
qed

theorem reset_runs_once_witness:
  "foreign other_work
   \<and> workers (run [Settle 0 (Inr 5), Settle 1 (Inr 3), Settle 2 (Inr (3::int))]
        (resetCounters (Inr [''t1'', ''t2'', ''t1''] :: string + string list)
          (run [Enqueue ''t1'' other_work] (init \<lparr> resetExecuted = True, resetAllCounters_calls = 4 \<rparr>)))) = []
   \<and> resetAllCounters_calls (world (run [Settle 0 (Inr 5), Settle 1 (Inr 3), Settle 2 (Inr (3::int))]
        (resetCounters (Inr [''t1'', ''t2'', ''t1''] :: string + string list)
          (run [Enqueue ''t1'' other_work] (init \<lparr> resetExecuted = True, resetAllCounters_calls = 4 \<rparr>))))) = 5
   \<and> submitted_of ''t1'' (trace (resetCounters (Inr [''t1'', ''t2'', ''t1''] :: string + string list)
          (run [Enqueue ''t1'' other_work] (init \<lparr> resetExecuted = True, resetAllCounters_calls = 4 \<rparr>))
            :: (string, job_vars, string, int) qstate)) = [0, 1]
   \<and> Invoked ''t2'' 2 None \<in> set (trace (resetCounters (Inr [''t1'', ''t2'', ''t1''] :: string + string list)
          (run [Enqueue ''t1'' other_work] (init \<lparr> resetExecuted = True, resetAllCounters_calls = 4 \<rparr>))
            :: (string, job_vars, string, int) qstate))"
  using reset_runs_once[where ts = "[Enqueue ''t1'' other_work]"
      and us = "[Settle 0 (Inr 5), Settle 1 (Inr 3), Settle 2 (Inr (3::int))]"
      and rows = "[''t1'', ''t2'', ''t1'']" and err = "''down''"
      and w = "\<lparr> resetExecuted = True, resetAllCounters_calls = 4 \<rparr>"]
  by (simp add: run_eval resetCounters_def getAllTenantIds_def reset_operation_def foreign_def
      other_work_def)


















end
